theory Spec2Isabelle
  imports Complex_Main "HOL-Library.AList" "HOL-Library.Char_ord" "HOL-Library.List_Lexorder"
    "HOL-Library.Sublist"
begin

section \<open>The language-file build task (gulp/task-build-lang.js)\<close>

text \<open>
  The task merges many small JSON translation files into one dictionary. Each file is
  stored under its path relative to the source root (\<open>treatFile\<close>), every key of a file
  is prefixed with a namespace derived from that path (\<open>getPrefix\<close>, \<open>addProperties\<close>),
  and the merged object is rebuilt in sorted key order and serialised
  (\<open>treatMergedData\<close>).

  JavaScript strings are modelled as \<open>string\<close>: the code inspects only the two path
  separators, the dot, the decimal digits and the order of the characters.
\<close>

subsection \<open>String primitives used by the task\<close>

text \<open>\<open>String.prototype.split\<close> with a separator that matches single characters:
  \<open>n\<close> separators give \<open>n + 1\<close> pieces, and the empty string gives one empty piece.\<close>

fun split_on :: "(char \<Rightarrow> bool) \<Rightarrow> string \<Rightarrow> string list" where
  "split_on sep [] = [[]]"
| "split_on sep (c # cs) =
     (if sep c then [] # split_on sep cs
      else (case split_on sep cs of
              w # ws \<Rightarrow> (c # w) # ws
            | [] \<Rightarrow> [[c]]))"

text \<open>\<open>Array.prototype.join\<close> on an array of strings.\<close>

fun join :: "string \<Rightarrow> string list \<Rightarrow> string" where
  "join sep [] = []"
| "join sep [x] = x"
| "join sep (x # y # ys) = x @ sep @ join sep (y # ys)"

text \<open>\<open>String.prototype.endsWith\<close>.\<close>

definition endsWith :: "string \<Rightarrow> string \<Rightarrow> bool" where
  "endsWith s suf =
     (length suf \<le> length s \<and> drop (length s - length suf) s = suf)"

text \<open>\<open>String.prototype.lastIndexOf\<close>: the greatest position at which the needle
  occurs, and \<open>-1\<close> when it does not occur.\<close>

definition occurs_at :: "string \<Rightarrow> string \<Rightarrow> nat \<Rightarrow> bool" where
  "occurs_at s needle i = (take (length needle) (drop i s) = needle)"

definition lastIndexOf :: "string \<Rightarrow> string \<Rightarrow> int" where
  "lastIndexOf s needle =
     (case filter (occurs_at s needle) (rev [0..<Suc (length s)]) of
        [] \<Rightarrow> - 1
      | i # _ \<Rightarrow> int i)"

text \<open>\<open>String.prototype.substr\<close> with one argument that is not negative.\<close>

definition substr :: "string \<Rightarrow> int \<Rightarrow> string" where
  "substr s start = drop (nat start) s"

text \<open>An array read \<open>xs[i]\<close> yields \<open>undefined\<close> out of range, and a template literal
  renders \<open>undefined\<close> as the text \<open>undefined\<close>.\<close>

definition at_index :: "string list \<Rightarrow> nat \<Rightarrow> string option" where
  "at_index xs i = (if i < length xs then Some (xs ! i) else None)"

fun template :: "string option \<Rightarrow> string" where
  "template None = ''undefined''"
| "template (Some s) = s"

subsection \<open>Path resolution in \<open>run\<close>\<close>

text \<open>The list \<open>paths\<close> that \<open>run\<close> computes from \<open>langPaths\<close> and hands to \<open>gulp.src\<close>.\<close>

definition paths :: "string list \<Rightarrow> string list" where
  "paths langPaths =
     map (\<lambda>path.
            if endsWith path ''.json'' then path
            else (let path = (if \<not> endsWith path ''/'' then path @ ''/'' else path)
                  in path @ ''lang.json''))
       langPaths"

subsection \<open>\<open>getPrefix\<close>\<close>

definition is_separator :: "char \<Rightarrow> bool" where
  "is_separator c = (c = CHR ''/'' \<or> c = CHR 0x5C)"

definition is_dot :: "char \<Rightarrow> bool" where
  "is_dot c = (c = CHR ''.'')"

text \<open>\<open>path.split\<close> never returns an empty array, so \<open>folders.pop()\<close> always removes
  and returns a string: the last piece.\<close>

definition getPrefix :: "string \<Rightarrow> string" where
  "getPrefix path =
     (let parts = split_on is_separator path;
          filename = last parts;
          folders = butlast parts
      in if at_index folders 0 = Some ''core'' then
           (if at_index folders 1 = Some ''features''
            then ''core.'' @ template (at_index folders 2) @ ''.''
            else ''core.'')
         else if at_index folders 0 = Some ''addons'' then
           ''addon.'' @ join ''_'' (drop 1 folders) @ ''.''
         else if at_index folders 0 = Some ''assets'' then
           (let filename' = join ''.'' (butlast (split_on is_dot filename))
            in ''assets.'' @ filename' @ ''.'')
         else template (at_index folders 0) @ ''.'' @ template (at_index folders 1) @ ''.'')"

subsection \<open>JavaScript values and objects\<close>

text \<open>
  What \<open>JSON.parse\<close> can return, and \<open>undefined\<close> for a read of a missing property.
  The numeric payload is never inspected. An object lists its properties in creation
  order; where a name is listed twice, the first listing stands.
\<close>

datatype jsvalue =
    JUndefined
  | JNull
  | JBool bool
  | JNumber real
  | JString string
  | JArray "jsvalue list"
  | JObject "(string \<times> jsvalue) list"

datatype js_error = SyntaxError | TypeError

type_synonym properties = "(string \<times> jsvalue) list"

text \<open>
  An object created by \<open>{}\<close>: its own enumerable properties in creation order, and its
  prototype. The prototype starts as \<open>Object.prototype\<close> and changes only through an
  assignment to the name \<open>__proto__\<close>.
\<close>

datatype prototype = ObjectPrototype | NullPrototype | ValuePrototype jsvalue

record jsobject =
  own :: properties
  proto :: prototype

definition empty_object :: jsobject where
  "empty_object = \<lparr>own = [], proto = ObjectPrototype\<rparr>"

text \<open>Decimal rendering of an index, and the value of a digit string.\<close>

fun decimal :: "nat \<Rightarrow> string" where
  "decimal n =
     (if n < 10 then [''0123456789'' ! n]
      else decimal (n div 10) @ [''0123456789'' ! (n mod 10)])"

declare decimal.simps [simp del]

definition is_digit :: "char \<Rightarrow> bool" where
  "is_digit c = (c \<in> set ''0123456789'')"

definition decimal_value :: "string \<Rightarrow> nat" where
  "decimal_value s = foldl (\<lambda>n c. 10 * n + (of_char c - 48)) 0 s"

text \<open>An array index is the canonical decimal text of a number below \<open>2^32 - 1\<close>.\<close>

definition isArrayIndex :: "string \<Rightarrow> bool" where
  "isArrayIndex k =
     (k \<noteq> [] \<and> list_all is_digit k \<and> (k = ''0'' \<or> hd k \<noteq> CHR ''0'')
      \<and> decimal_value k < 4294967295)"

text \<open>The order in which an object's own keys are enumerated (\<open>for ... in\<close>,
  \<open>Object.keys\<close>, \<open>JSON.stringify\<close>): array indices ascending, then every other
  key in creation order.\<close>

definition ownPropertyKeys :: "properties \<Rightarrow> string list" where
  "ownPropertyKeys ps =
     (let ks = map fst ps
      in sort_key decimal_value (filter isArrayIndex ks)
         @ filter (\<lambda>k. \<not> isArrayIndex k) ks)"

text \<open>The own enumerable properties that a parsed value shows when it is enumerated or
  used as a prototype: the entries of an object, the elements of an array, the
  characters of a string, and nothing for the other values.\<close>

fun enumerable :: "jsvalue \<Rightarrow> properties" where
  "enumerable (JObject kvs) = AList.clearjunk kvs"
| "enumerable (JArray xs) = zip (map decimal [0..<length xs]) xs"
| "enumerable (JString s) = zip (map decimal [0..<length s]) (map (\<lambda>c. JString [c]) s)"
| "enumerable v = []"

definition as_object :: "jsvalue \<Rightarrow> jsobject" where
  "as_object v = \<lparr>own = enumerable v, proto = ObjectPrototype\<rparr>"

definition has_own :: "jsobject \<Rightarrow> string \<Rightarrow> bool" where
  "has_own obj k = (map_of (own obj) k \<noteq> None)"

text \<open>Whether a lookup of \<open>k\<close> along the prototype chain finds a property that a parsed
  value defines, before it reaches \<open>Object.prototype\<close>. It is used for the two names
  \<open>__proto__\<close> and \<open>hasOwnProperty\<close>, which arrays do not define themselves.\<close>

definition proto_defines :: "prototype \<Rightarrow> string \<Rightarrow> bool" where
  "proto_defines pr k =
     (case pr of ValuePrototype v \<Rightarrow> map_of (enumerable v) k \<noteq> None | _ \<Rightarrow> False)"

text \<open>The read \<open>obj[k]\<close> of an own property.\<close>

definition get :: "jsobject \<Rightarrow> string \<Rightarrow> jsvalue" where
  "get obj k = (case map_of (own obj) k of Some v \<Rightarrow> v | None \<Rightarrow> JUndefined)"

text \<open>
  The assignment \<open>obj[k] = v\<close>. An own property is updated in place, a new one is
  created after the existing ones. The name \<open>__proto__\<close> is different: unless the object
  has such an own property, or the chain defines one as data, or the chain does not
  reach \<open>Object.prototype\<close>, the assignment runs the inherited setter, which replaces the
  prototype when \<open>v\<close> is an object or \<open>null\<close> and does nothing otherwise.
\<close>

definition assign :: "jsobject \<Rightarrow> string \<Rightarrow> jsvalue \<Rightarrow> jsobject" where
  "assign obj k v =
     (if k = ''__proto__'' \<and> \<not> has_own obj k \<and> proto obj \<noteq> NullPrototype
         \<and> \<not> proto_defines (proto obj) k
      then (case v of
              JNull \<Rightarrow> obj\<lparr>proto := NullPrototype\<rparr>
            | JObject kvs \<Rightarrow> obj\<lparr>proto := ValuePrototype v\<rparr>
            | JArray xs \<Rightarrow> obj\<lparr>proto := ValuePrototype v\<rparr>
            | _ \<Rightarrow> obj)
      else obj\<lparr>own := AList.update k v (own obj)\<rparr>)"

text \<open>The keys visited by \<open>for (k in obj)\<close>: the own keys, then the enumerable keys of
  the prototype that are not own keys.\<close>

definition inherited_keys :: "prototype \<Rightarrow> string list" where
  "inherited_keys pr =
     (case pr of ValuePrototype v \<Rightarrow> ownPropertyKeys (enumerable v) | _ \<Rightarrow> [])"

definition for_in :: "jsobject \<Rightarrow> string list" where
  "for_in obj =
     (let ks = ownPropertyKeys (own obj)
      in ks @ filter (\<lambda>k. k \<notin> set ks) (inherited_keys (proto obj)))"

text \<open>
  The call \<open>obj.hasOwnProperty(k)\<close>. The method is looked up on the object itself
  first: an own property of that name, or one defined by a parsed value on the chain,
  is not a function, and a chain that does not reach \<open>Object.prototype\<close> has no such
  method; the call then throws a \<open>TypeError\<close>.
\<close>

definition inherits_hasOwnProperty :: "jsobject \<Rightarrow> bool" where
  "inherits_hasOwnProperty obj =
     (\<not> has_own obj ''hasOwnProperty'' \<and> proto obj \<noteq> NullPrototype
      \<and> \<not> proto_defines (proto obj) ''hasOwnProperty'')"

definition hasOwnProperty :: "jsobject \<Rightarrow> string \<Rightarrow> js_error + bool" where
  "hasOwnProperty obj k =
     (if inherits_hasOwnProperty obj then Inr (has_own obj k) else Inl TypeError)"

subsection \<open>\<open>addProperties\<close>\<close>

text \<open>
  The loop \<open>for (let property in source)\<close> with its \<open>hasOwnProperty\<close> guard, over the
  keys that the loop visits. The source is a parsed value: \<open>as_object\<close> gives the
  properties it shows to the loop (none for \<open>null\<close>, a number or a boolean). The
  parameter \<open>prefix\<close> of the code is written \<open>pfx\<close> here. The target is updated in
  place by the code and returned by the model; when a call throws, the target is lost
  with the rest of \<open>treatMergedData\<close>.
\<close>

fun addProperties_loop ::
  "jsobject \<Rightarrow> jsobject \<Rightarrow> string \<Rightarrow> string list \<Rightarrow> js_error + jsobject" where
  "addProperties_loop target source pfx [] = Inr target"
| "addProperties_loop target source pfx (property # rest) =
     (case hasOwnProperty source property of
        Inl err \<Rightarrow> Inl err
      | Inr is_own \<Rightarrow>
          addProperties_loop
            (if is_own then assign target (pfx @ property) (get source property)
             else target)
            source pfx rest)"

definition addProperties :: "jsobject \<Rightarrow> jsvalue \<Rightarrow> string \<Rightarrow> js_error + jsobject" where
  "addProperties target source pfx =
     addProperties_loop target (as_object source) pfx (for_in (as_object source))"

text \<open>What one entry of \<open>data\<close> contributes to \<open>merged\<close>: every own key of the parsed
  value, under the prefix of the path, with its value.\<close>

definition contribution :: "string \<Rightarrow> jsvalue \<Rightarrow> properties" where
  "contribution filepath source =
     map (\<lambda>property. (getPrefix filepath @ property, get (as_object source) property))
       (for_in (as_object source))"

subsection \<open>\<open>treatMergedData\<close>\<close>

text \<open>The first loop: every own entry of \<open>data\<close> is copied into \<open>merged\<close> under the
  prefix of its path.\<close>

fun merge_loop :: "jsobject \<Rightarrow> jsobject \<Rightarrow> string list \<Rightarrow> js_error + jsobject" where
  "merge_loop merged data [] = Inr merged"
| "merge_loop merged data (filepath # rest) =
     (case hasOwnProperty data filepath of
        Inl err \<Rightarrow> Inl err
      | Inr is_own \<Rightarrow>
          (if is_own then
             (let pfx = getPrefix filepath
              in if pfx \<noteq> [] then
                   (case addProperties merged (get data filepath) pfx of
                      Inl err \<Rightarrow> Inl err
                    | Inr merged' \<Rightarrow> merge_loop merged' data rest)
                 else merge_loop merged data rest)
           else merge_loop merged data rest))"

definition mergeData :: "jsobject \<Rightarrow> js_error + jsobject" where
  "mergeData data = merge_loop empty_object data (for_in data)"

text \<open>The second loop: \<open>mergedOrdered\<close> is rebuilt from the sorted keys of \<open>merged\<close>.\<close>

definition orderMerged :: "jsobject \<Rightarrow> jsobject" where
  "orderMerged merged =
     foldl (\<lambda>mergedOrdered key. assign mergedOrdered key (get merged key))
       empty_object (sort (ownPropertyKeys (own merged)))"

text \<open>The properties of an object as the serialiser reads them: own keys in
  enumeration order, each with its value.\<close>

definition entries :: "jsobject \<Rightarrow> properties" where
  "entries obj = map (\<lambda>k. (k, get obj k)) (ownPropertyKeys (own obj))"

text \<open>\<open>bufferFrom(JSON.stringify(obj, null, 4))\<close> is a parameter: a function of the
  entries of the object.\<close>

type_synonym serializer = "properties \<Rightarrow> string"

definition mergedOrdered :: "jsobject \<Rightarrow> js_error + properties" where
  "mergedOrdered data =
     (case mergeData data of
        Inl err \<Rightarrow> Inl err
      | Inr merged \<Rightarrow> Inr (entries (orderMerged merged)))"

definition treatMergedData :: "serializer \<Rightarrow> jsobject \<Rightarrow> js_error + string" where
  "treatMergedData stringify data =
     (case mergedOrdered data of
        Inl err \<Rightarrow> Inl err
      | Inr ordered \<Rightarrow> Inr (stringify ordered))"

subsection \<open>\<open>JSON.stringify\<close> and \<open>bufferFrom\<close>\<close>

text \<open>The serialiser that \<open>treatMergedData\<close> calls,
  \<open>bufferFrom(JSON.stringify(mergedOrdered, null, 4))\<close>, following the language
  standard. The third argument \<open>4\<close> makes the gap four spaces.\<close>

definition gap :: string where
  "gap = ''    ''"

definition newline :: string where
  "newline = [CHR 0x0A]"

text \<open>\<open>QuoteJSONString\<close>: the two-character escapes, \<open>\u00XX\<close> for the other control
  characters, and every other character as it is.\<close>

definition hex_digit :: "nat \<Rightarrow> char" where
  "hex_digit n = ''0123456789abcdef'' ! (n mod 16)"

definition quote_char :: "char \<Rightarrow> string" where
  "quote_char c =
     (if c = CHR 0x08 then [CHR 0x5C, CHR ''b'']
      else if c = CHR 0x09 then [CHR 0x5C, CHR ''t'']
      else if c = CHR 0x0A then [CHR 0x5C, CHR ''n'']
      else if c = CHR 0x0C then [CHR 0x5C, CHR ''f'']
      else if c = CHR 0x0D then [CHR 0x5C, CHR ''r'']
      else if c = CHR 0x22 then [CHR 0x5C, CHR 0x22]
      else if c = CHR 0x5C then [CHR 0x5C, CHR 0x5C]
      else if (of_char c :: nat) < 32
        then [CHR 0x5C, CHR ''u'', CHR ''0'', CHR ''0'',
              hex_digit (of_char c div 16), hex_digit (of_char c)]
      else [c])"

definition QuoteJSONString :: "string \<Rightarrow> string" where
  "QuoteJSONString s = [CHR 0x22] @ concat (map quote_char s) @ [CHR 0x22]"

text \<open>The members of an object or array, one per line behind the new indentation, or
  nothing between the brackets when there is no member.\<close>

definition wrap :: "string \<Rightarrow> string \<Rightarrow> string \<Rightarrow> string list \<Rightarrow> string" where
  "wrap opening closing indent partial =
     (if partial = [] then opening @ closing
      else opening @ newline @ indent @ gap
           @ join ('','' @ newline @ indent @ gap) partial
           @ newline @ indent @ closing)"

text \<open>\<open>SerializeJSONProperty\<close>: no text for \<open>undefined\<close>; an array writes \<open>null\<close> for
  such an element and an object leaves such a member out. The keys of an object are
  serialised in enumeration order, each with its current value. The text of a number is
  a parameter.\<close>

fun SerializeJSONProperty :: "(real \<Rightarrow> string) \<Rightarrow> string \<Rightarrow> jsvalue \<Rightarrow> string option" where
  "SerializeJSONProperty num indent JUndefined = None"
| "SerializeJSONProperty num indent JNull = Some ''null''"
| "SerializeJSONProperty num indent (JBool b) = Some (if b then ''true'' else ''false'')"
| "SerializeJSONProperty num indent (JNumber r) = Some (num r)"
| "SerializeJSONProperty num indent (JString s) = Some (QuoteJSONString s)"
| "SerializeJSONProperty num indent (JArray xs) =
     Some (wrap ''['' '']'' indent
       (map (\<lambda>x. case SerializeJSONProperty num (indent @ gap) x of
                  None \<Rightarrow> ''null'' | Some strP \<Rightarrow> strP) xs))"
| "SerializeJSONProperty num indent (JObject kvs) =
     (let rendered = map (\<lambda>kv. (fst kv, SerializeJSONProperty num (indent @ gap) (snd kv))) kvs
      in Some (wrap ''{'' ''}'' indent
           (List.map_filter
              (\<lambda>P. case map_of rendered P of
                     Some (Some strP) \<Rightarrow> Some (QuoteJSONString P @ '': '' @ strP)
                   | _ \<Rightarrow> None)
              (ownPropertyKeys (AList.clearjunk kvs)))))"

definition JSON_stringify :: "(real \<Rightarrow> string) \<Rightarrow> properties \<Rightarrow> string" where
  "JSON_stringify num props =
     (case SerializeJSONProperty num [] (JObject props) of Some text \<Rightarrow> text | None \<Rightarrow> [])"

text \<open>\<open>bufferFrom\<close> encodes the text as UTF-8: one byte for a character below 128 and two
  bytes for the others (a character here is one code unit below 256).\<close>

definition utf8 :: "char \<Rightarrow> string" where
  "utf8 c =
     (if (of_char c :: nat) < 128 then [c]
      else [char_of (192 + (of_char c :: nat) div 64), char_of (128 + (of_char c :: nat) mod 64)])"

definition bufferFrom :: "string \<Rightarrow> string" where
  "bufferFrom s = concat (map utf8 s)"

definition serialize :: "(real \<Rightarrow> string) \<Rightarrow> serializer" where
  "serialize num props = bufferFrom (JSON_stringify num props)"

subsection \<open>\<open>treatFile\<close>\<close>

text \<open>A vinyl file: its path and its contents, which are absent, a stream or a buffer.\<close>

datatype contents = NoContents | StreamContents | BufferContents string

record vinyl =
  path :: string
  contents :: contents

text \<open>What the task accumulates: the \<open>data\<close> object and the lines written with
  \<open>console.error\<close>.\<close>

datatype console_line = ErrorParsingJSON js_error

record task_state =
  data :: jsobject
  console :: "console_line list"

definition initial_state :: task_state where
  "initial_state = \<lparr>data = empty_object, console = []\<rparr>"

definition backslash :: char where
  "backslash = CHR 0x5C"

text \<open>The part of \<open>treatFile\<close> that cuts the path after the source-root marker.\<close>

definition logicalPath :: "string \<Rightarrow> string" where
  "logicalPath filePath =
     (let prefixLength = 9;
          srcPos = lastIndexOf filePath ''/src/app/'';
          srcPos = (if srcPos < 0
                    then lastIndexOf filePath
                           (backslash # ''src'' @ backslash # ''app'' @ [backslash])
                    else srcPos);
          (prefixLength, srcPos) =
            (if srcPos < 0
             then (5, let srcPos = lastIndexOf filePath ''/src/''
                      in if srcPos < 0
                         then lastIndexOf filePath (backslash # ''src'' @ [backslash])
                         else srcPos)
             else (prefixLength, srcPos))
      in substr filePath (srcPos + prefixLength))"

text \<open>\<open>JSON.parse\<close> is a parameter: it returns the parsed value, or \<open>None\<close> where it
  throws a \<open>SyntaxError\<close>.\<close>

type_synonym parser = "string \<Rightarrow> jsvalue option"

definition treatFile :: "parser \<Rightarrow> vinyl \<Rightarrow> task_state \<Rightarrow> task_state" where
  "treatFile parse file st =
     (case contents file of
        NoContents \<Rightarrow> st
      | StreamContents \<Rightarrow> st
      | BufferContents text \<Rightarrow>
          (let filePath = logicalPath (path file)
           in case parse text of
                None \<Rightarrow> st\<lparr>console := console st @ [ErrorParsingJSON SyntaxError]\<rparr>
              | Some parsed \<Rightarrow> st\<lparr>data := assign (data st) filePath parsed\<rparr>))"

text \<open>The stream hands the files to \<open>treatFile\<close> one after the other.\<close>

definition treatFiles :: "parser \<Rightarrow> vinyl list \<Rightarrow> task_state \<Rightarrow> task_state" where
  "treatFiles parse files st = foldl (\<lambda>s file. treatFile parse file s) st files"

text \<open>What \<open>treatFile\<close> reads from a file: the parsed contents of a buffer whose text
  \<open>JSON.parse\<close> accepts, and nothing for the other files.\<close>

definition parsed_contents :: "parser \<Rightarrow> vinyl \<Rightarrow> jsvalue option" where
  "parsed_contents parse file =
     (case contents file of BufferContents text \<Rightarrow> parse text | _ \<Rightarrow> None)"

subsection \<open>Notions used in the proofs\<close>

text \<open>
  An object built by the two loops of \<open>treatMergedData\<close>: it keeps the prototype it was
  created with, no key is listed twice and every key contains a dot. \<open>add_entry\<close> is
  what one successful call of \<open>addProperties\<close> in the first loop does to \<open>merged\<close>,
  \<open>merged_map\<close> is \<open>merged\<close> as a map, built from the contributions in enumeration
  order, and \<open>mergeable\<close> is the condition under which no call of \<open>hasOwnProperty\<close>
  throws. \<open>agree_off p\<close> relates two objects that differ at most in the entry \<open>p\<close>.
\<close>

definition plain :: "jsobject \<Rightarrow> bool" where
  "plain obj = (proto obj = ObjectPrototype \<and> distinct (map fst (own obj))
     \<and> (\<forall>k\<in>fst ` set (own obj). CHR ''.'' \<in> set k))"

definition add_entry :: "jsobject \<Rightarrow> jsobject \<Rightarrow> string \<Rightarrow> jsobject" where
  "add_entry d m p =
     foldl (\<lambda>t k. assign t (getPrefix p @ k) (get (as_object (get d p)) k)) m
       (for_in (as_object (get d p)))"

definition merged_map :: "jsobject \<Rightarrow> string \<rightharpoonup> jsvalue" where
  "merged_map d =
     foldl (\<lambda>M p. M ++ map_of (contribution p (get d p))) Map.empty (ownPropertyKeys (own d))"

definition mergeable :: "jsobject \<Rightarrow> bool" where
  "mergeable d =
     (for_in d = [] \<or>
      (inherits_hasOwnProperty d \<and>
       (\<forall>p\<in>fst ` set (own d). \<not> has_own (as_object (get d p)) ''hasOwnProperty'')))"

definition agree_off :: "string \<Rightarrow> jsobject \<Rightarrow> jsobject \<Rightarrow> bool" where
  "agree_off p s s' = (proto s = proto s' \<and> (\<forall>k. k \<noteq> p \<longrightarrow> map_of (own s) k = map_of (own s') k))"

subsection \<open>Sample input\<close>

text \<open>A parser that agrees with \<open>JSON.parse\<close> on the five texts below; the examples use
  it on these texts and on a truncated text, which \<open>JSON.parse\<close> rejects.\<close>

definition sample_parse :: parser where
  \<open>sample_parse text =
     (if text = ''{"k":"A"}'' then Some (JObject [(''k'', JString ''A'')])
      else if text = ''{"k":"B"}'' then Some (JObject [(''k'', JString ''B'')])
      else if text = ''{"k":"C"}'' then Some (JObject [(''k'', JString ''C'')])
      else if text = ''{"x":"1"}'' then Some (JObject [(''x'', JString ''1'')])
      else if text = ''{"y":"2"}'' then Some (JObject [(''y'', JString ''2'')])
      else None)\<close>

text \<open>A parser that agrees with \<open>JSON.parse\<close> on the text below, a mapping with a key named
  \<open>hasOwnProperty\<close>.\<close>

definition shadow_parse :: parser where
  \<open>shadow_parse text =
     (if text = ''{"hasOwnProperty":"x"}'' then Some (JObject [(''hasOwnProperty'', JString ''x'')])
      else None)\<close>

section \<open>Path resolution\<close>

lemma endsWith_suffix: "endsWith s suf = suffix suf s"
proof
  assume "endsWith s suf"
  then have "s = take (length s - length suf) s @ suf"
    by (metis append_take_drop_id endsWith_def)
  then show "suffix suf s" by (metis suffixI)
next
  assume "suffix suf s"
  then obtain zs where "s = zs @ suf" by (auto simp: suffix_def)
  then show "endsWith s suf" by (simp add: endsWith_def)
qed

text \<open>
  C9. The path-resolution step of \<open>run\<close> keeps the length and the order of the list. A
  path that ends in \<open>.json\<close> is left as it is; any other path gets \<open>lang.json\<close>
  appended, after a \<open>/\<close> that is inserted only when the path does not end with one.
\<close>

theorem run_paths_spec:
  "length (paths langPaths) = length langPaths \<and>
   (\<forall>i<length langPaths.
      paths langPaths ! i =
        (if suffix ''.json'' (langPaths ! i) then langPaths ! i
         else if suffix ''/'' (langPaths ! i) then langPaths ! i @ ''lang.json''
         else langPaths ! i @ ''/lang.json''))"
  by (simp add: paths_def endsWith_suffix Let_def)

theorem run_paths_spec_witness:
  "paths [''src/core/lang.json'', ''src/addons/mod'', ''src/core/''] ! 0
     = ''src/core/lang.json'' \<and>
   paths [''src/core/lang.json'', ''src/addons/mod'', ''src/core/''] ! 1
     = ''src/addons/mod/lang.json'' \<and>
   paths [''src/core/lang.json'', ''src/addons/mod'', ''src/core/''] ! 2
     = ''src/core/lang.json''"
proof -
  let ?ps = "[''src/core/lang.json'', ''src/addons/mod'', ''src/core/'']"
  have all: "\<forall>i<length ?ps.
      paths ?ps ! i =
        (if suffix ''.json'' (?ps ! i) then ?ps ! i
         else if suffix ''/'' (?ps ! i) then ?ps ! i @ ''lang.json''
         else ?ps ! i @ ''/lang.json'')"
    using run_paths_spec [of ?ps] by blast
  have "paths ?ps ! 0 = ''src/core/lang.json''"
    using all [rule_format, of 0] by (simp add: suffix_to_prefix)
  moreover have "paths ?ps ! 1 = ''src/addons/mod/lang.json''"
    using all [rule_format, of 1] by (simp add: suffix_to_prefix)
  moreover have "paths ?ps ! 2 = ''src/core/lang.json''"
    using all [rule_format, of 2] by (simp add: suffix_to_prefix)
  ultimately show ?thesis by blast
qed

section \<open>The namespace prefix\<close>

lemma split_on_not_Nil: "split_on sep s \<noteq> []"
  by (induction s) (auto split: list.splits)

lemma split_on_append_sep:
  "sep c \<Longrightarrow> split_on sep (a @ c # b) = split_on sep a @ split_on sep b"
proof (induction a)
  case Nil
  then show ?case by simp
next
  case (Cons x a)
  then show ?case
    using split_on_not_Nil [of sep a] by (cases "split_on sep a") auto
qed

lemma split_on_no_separator: "\<forall>x\<in>set b. \<not> sep x \<Longrightarrow> split_on sep b = [b]"
  by (induction b) auto

lemma join_split_on: "join [c] (split_on (\<lambda>x. x = c) s) = s"
proof (induction s)
  case Nil
  then show ?case by simp
next
  case (Cons x xs)
  obtain w ws where sp: "split_on (\<lambda>x. x = c) xs = w # ws"
    using split_on_not_Nil [of "\<lambda>x. x = c" xs]
    by (cases "split_on (\<lambda>x. x = c) xs") auto
  with Cons show ?case by (cases ws) auto
qed

text \<open>The prefix of a path that has at least one folder before its file name, read
  off the pieces of the path.\<close>

lemma getPrefix_segments:
  assumes "split_on is_separator p = first # rest @ [filename]"
  shows "getPrefix p =
     (if first = ''core'' then
        (if at_index rest 0 = Some ''features''
         then ''core.'' @ template (at_index rest 1) @ ''.''
         else ''core.'')
      else if first = ''addons'' then ''addon.'' @ join ''_'' rest @ ''.''
      else if first = ''assets'' then
        ''assets.'' @ join ''.'' (butlast (split_on is_dot filename)) @ ''.''
      else first @ ''.'' @ template (at_index rest 0) @ ''.'')"
  using assms by (simp add: getPrefix_def Let_def at_index_def butlast_append nth_append)

lemma getPrefix_no_folder:
  assumes "split_on is_separator p = [filename]"
  shows "getPrefix p = ''undefined.undefined.''"
  using assms by (simp add: getPrefix_def Let_def at_index_def)

lemma strip_extension:
  assumes "CHR ''.'' \<notin> set ext"
  shows "join ''.'' (butlast (split_on is_dot (base @ ''.'' @ ext))) = base"
proof -
  have d: "is_dot = (\<lambda>x. x = CHR ''.'')" by (auto simp: is_dot_def)
  have "split_on is_dot (base @ CHR ''.'' # ext) = split_on is_dot base @ split_on is_dot ext"
    by (rule split_on_append_sep) (simp add: is_dot_def)
  moreover have "split_on is_dot ext = [ext]"
    using assms by (intro split_on_no_separator) (auto simp: is_dot_def)
  ultimately have "butlast (split_on is_dot (base @ ''.'' @ ext)) = split_on is_dot base"
    by simp
  then show ?thesis using join_split_on [of "CHR ''.''" base] by (simp add: d)
qed

lemma getPrefix_ends_dot: "getPrefix p \<noteq> [] \<and> last (getPrefix p) = CHR ''.''"
  by (simp add: getPrefix_def Let_def)

text \<open>
  C2, as the code has it. The segments of a logical path are its pieces between
  separators, and the last piece is the file name. For a path that starts with the
  folder \<open>core\<close>, the prefix is \<open>core.<third>.\<close> when the second piece is \<open>features\<close> and
  a third piece comes before the file name, and \<open>core.\<close> when the second piece before the
  file name is not \<open>features\<close>. For a path that starts with the folder \<open>addons\<close>, the prefix
  is \<open>addon.\<close>, the pieces between \<open>addons\<close> and the file name joined with \<open>_\<close>, and a dot.
\<close>

theorem getPrefix_core_addons:
  "(split_on is_separator p = ''core'' # ''features'' # third # rest @ [filename]
      \<longrightarrow> getPrefix p = ''core.'' @ third @ ''.'') \<and>
   (split_on is_separator p = ''core'' # rest @ [filename]
      \<and> take 1 rest \<noteq> [''features'']
      \<longrightarrow> getPrefix p = ''core.'') \<and>
   (split_on is_separator p = ''addons'' # rest @ [filename]
      \<longrightarrow> getPrefix p = ''addon.'' @ join ''_'' rest @ ''.'') \<and>
   getPrefix ''core/features/calendar/strings.json'' = ''core.calendar.'' \<and>
   getPrefix ''addons/mod/forum/strings.json'' = ''addon.mod_forum.''"
proof (intro conjI impI)
  assume "split_on is_separator p = ''core'' # ''features'' # third # rest @ [filename]"
  then have "split_on is_separator p = ''core'' # (''features'' # third # rest) @ [filename]"
    by simp
  from getPrefix_segments [OF this] show "getPrefix p = ''core.'' @ third @ ''.''"
    by (simp add: at_index_def)
next
  assume a: "split_on is_separator p = ''core'' # rest @ [filename]
      \<and> take 1 rest \<noteq> [''features'']"
  then have "at_index rest 0 \<noteq> Some ''features''"
    by (cases rest) (auto simp: at_index_def)
  with a getPrefix_segments [of p "''core''" rest filename]
  show "getPrefix p = ''core.''" by simp
next
  assume "split_on is_separator p = ''addons'' # rest @ [filename]"
  from getPrefix_segments [OF this]
  show "getPrefix p = ''addon.'' @ join ''_'' rest @ ''.''" by simp
next
  show "getPrefix ''core/features/calendar/strings.json'' = ''core.calendar.''"
    by (simp add: getPrefix_def is_separator_def at_index_def)
next
  show "getPrefix ''addons/mod/forum/strings.json'' = ''addon.mod_forum.''"
    by (simp add: getPrefix_def is_separator_def at_index_def)
qed

theorem getPrefix_core_addons_witness:
  "split_on is_separator ''core/features/calendar/strings.json''
     = ''core'' # ''features'' # ''calendar'' # [] @ [''strings.json''] \<and>
   getPrefix ''core/features/calendar/strings.json'' = ''core.'' @ ''calendar'' @ ''.'' \<and>
   split_on is_separator ''core/strings.json'' = ''core'' # [] @ [''strings.json''] \<and>
   take 1 ([] :: string list) \<noteq> [''features''] \<and>
   getPrefix ''core/strings.json'' = ''core.'' \<and>
   split_on is_separator ''addons/mod/forum/strings.json''
     = ''addons'' # [''mod'', ''forum''] @ [''strings.json''] \<and>
   getPrefix ''addons/mod/forum/strings.json''
     = ''addon.'' @ join ''_'' [''mod'', ''forum''] @ ''.''"
proof -
  have s1: "split_on is_separator ''core/features/calendar/strings.json''
     = ''core'' # ''features'' # ''calendar'' # [] @ [''strings.json'']"
    by (simp add: is_separator_def)
  have s2: "split_on is_separator ''core/strings.json'' = ''core'' # [] @ [''strings.json'']"
    by (simp add: is_separator_def)
  have s3: "split_on is_separator ''addons/mod/forum/strings.json''
     = ''addons'' # [''mod'', ''forum''] @ [''strings.json'']"
    by (simp add: is_separator_def)
  have t2: "take 1 ([] :: string list) \<noteq> [''features'']" by simp
  from getPrefix_core_addons
    [of "''core/features/calendar/strings.json''" "''calendar''" "[]" "''strings.json''"] s1
  have p1: "getPrefix ''core/features/calendar/strings.json'' = ''core.'' @ ''calendar'' @ ''.''"
    by blast
  from getPrefix_core_addons [of "''core/strings.json''" _ "[]" "''strings.json''"] s2 t2
  have p2: "getPrefix ''core/strings.json'' = ''core.''"
    by blast
  from getPrefix_core_addons
    [of "''addons/mod/forum/strings.json''" _ "[''mod'', ''forum'']" "''strings.json''"] s3
  have p3: "getPrefix ''addons/mod/forum/strings.json''
     = ''addon.'' @ join ''_'' [''mod'', ''forum''] @ ''.''"
    by blast
  from s1 s2 s3 t2 p1 p2 p3 show ?thesis by blast
qed

text \<open>
  The claim C2 as it is written fails where the third piece is the file name itself:
  the code then reads a folder that does not exist and prints \<open>undefined\<close>.
\<close>

theorem getPrefix_core_features_counterexample:
  "split_on is_separator ''core/features/lang.json'' = [''core'', ''features'', ''lang.json''] \<and>
   getPrefix ''core/features/lang.json'' = ''core.undefined.'' \<and>
   getPrefix ''core/features/lang.json'' \<noteq> ''core.lang.json.''"
  by (simp add: getPrefix_def is_separator_def at_index_def)

text \<open>
  C3, as the code has it. For a path that starts with the folder \<open>assets\<close> and whose file
  name has a dot, the prefix is \<open>assets.\<close>, the file name up to its last dot, and a
  dot. For a path that starts with two folders, the first of them none of \<open>core\<close>,
  \<open>addons\<close> and \<open>assets\<close>, the prefix is \<open><first>.<second>.\<close>.
\<close>

theorem getPrefix_assets_default:
  "(split_on is_separator p = ''assets'' # rest @ [base @ ''.'' @ ext]
      \<and> CHR ''.'' \<notin> set ext
      \<longrightarrow> getPrefix p = ''assets.'' @ base @ ''.'') \<and>
   (split_on is_separator p = first # second # rest @ [filename]
      \<and> first \<noteq> ''core'' \<and> first \<noteq> ''addons'' \<and> first \<noteq> ''assets''
      \<longrightarrow> getPrefix p = first @ ''.'' @ second @ ''.'') \<and>
   getPrefix ''assets/en.json'' = ''assets.en.'' \<and>
   getPrefix ''custom/plugin/strings.json'' = ''custom.plugin.''"
proof (intro conjI impI)
  assume a: "split_on is_separator p = ''assets'' # rest @ [base @ ''.'' @ ext]
      \<and> CHR ''.'' \<notin> set ext"
  then have "getPrefix p
      = ''assets.'' @ join ''.'' (butlast (split_on is_dot (base @ ''.'' @ ext))) @ ''.''"
    using getPrefix_segments [of p "''assets''" rest "base @ ''.'' @ ext"] by simp
  moreover have "join ''.'' (butlast (split_on is_dot (base @ ''.'' @ ext))) = base"
    using a by (intro strip_extension) blast
  ultimately show "getPrefix p = ''assets.'' @ base @ ''.''"
    by (simp only:)
next
  assume a: "split_on is_separator p = first # second # rest @ [filename]
      \<and> first \<noteq> ''core'' \<and> first \<noteq> ''addons'' \<and> first \<noteq> ''assets''"
  then have "split_on is_separator p = first # (second # rest) @ [filename]" by simp
  from getPrefix_segments [OF this] a
  show "getPrefix p = first @ ''.'' @ second @ ''.''"
    by (simp add: at_index_def)
next
  show "getPrefix ''assets/en.json'' = ''assets.en.''"
    by (simp add: getPrefix_def is_separator_def is_dot_def at_index_def)
next
  show "getPrefix ''custom/plugin/strings.json'' = ''custom.plugin.''"
    by (simp add: getPrefix_def is_separator_def at_index_def)
qed

theorem getPrefix_assets_default_witness:
  "split_on is_separator ''assets/img/en.min.json''
     = ''assets'' # [''img''] @ [''en.min'' @ ''.'' @ ''json''] \<and>
   CHR ''.'' \<notin> set ''json'' \<and>
   getPrefix ''assets/img/en.min.json'' = ''assets.'' @ ''en.min'' @ ''.'' \<and>
   split_on is_separator ''custom/plugin/strings.json''
     = ''custom'' # ''plugin'' # [] @ [''strings.json''] \<and>
   ''custom'' \<noteq> ''core'' \<and> ''custom'' \<noteq> ''addons'' \<and> ''custom'' \<noteq> ''assets'' \<and>
   getPrefix ''custom/plugin/strings.json'' = ''custom'' @ ''.'' @ ''plugin'' @ ''.''"
proof -
  have s1: "split_on is_separator ''assets/img/en.min.json''
     = ''assets'' # [''img''] @ [''en.min'' @ ''.'' @ ''json'']"
    by (simp add: is_separator_def)
  have e1: "CHR ''.'' \<notin> set ''json''" by simp
  have s2: "split_on is_separator ''custom/plugin/strings.json''
     = ''custom'' # ''plugin'' # [] @ [''strings.json'']"
    by (simp add: is_separator_def)
  have n2: "''custom'' \<noteq> ''core'' \<and> ''custom'' \<noteq> ''addons'' \<and> ''custom'' \<noteq> ''assets''"
    by simp
  from getPrefix_assets_default
    [of "''assets/img/en.min.json''" "[''img'']" "''en.min''" "''json''"] s1 e1
  have p1: "getPrefix ''assets/img/en.min.json'' = ''assets.'' @ ''en.min'' @ ''.''"
    by blast
  from getPrefix_assets_default
    [of "''custom/plugin/strings.json''" "[]" _ _ "''custom''" "''plugin''" "''strings.json''"]
    s2 n2
  have p2: "getPrefix ''custom/plugin/strings.json'' = ''custom'' @ ''.'' @ ''plugin'' @ ''.''"
    by blast
  from s1 e1 s2 n2 p1 p2 show ?thesis by blast
qed

text \<open>
  The claim C3 as it is written fails for a file name without a dot, which loses its
  whole name, and for a path with one folder, which has no second folder to print.
\<close>

theorem getPrefix_assets_default_counterexample:
  "getPrefix ''assets/en'' = ''assets..'' \<and> getPrefix ''assets/en'' \<noteq> ''assets.en.'' \<and>
   getPrefix ''custom/strings.json'' = ''custom.undefined.'' \<and>
   getPrefix ''custom/strings.json'' \<noteq> ''custom.strings.json.''"
  by (simp add: getPrefix_def is_separator_def is_dot_def at_index_def)

text \<open>
  C8, as the code has it. The prefix of every path is a non-empty string whose last
  character is the dot.
\<close>

theorem getPrefix_nonempty_ends_with_dot:
  "getPrefix p \<noteq> [] \<and> last (getPrefix p) = CHR ''.''"
  by (rule getPrefix_ends_dot)

text \<open>
  The claim C8 as it is written, a single dot at the end, fails for a file in \<open>assets\<close>
  whose name has no extension, and for a folder whose name ends with a dot: the prefix
  ends with two dots.
\<close>

theorem getPrefix_single_dot_counterexample:
  "getPrefix ''assets/README'' = ''assets..'' \<and>
   last (butlast (getPrefix ''assets/README'')) = CHR ''.'' \<and>
   getPrefix ''addons/v1./lang.json'' = ''addon.v1..'' \<and>
   last (butlast (getPrefix ''addons/v1./lang.json'')) = CHR ''.''"
  by (simp add: getPrefix_def is_separator_def is_dot_def at_index_def)

section \<open>Objects, enumeration order and the first loop\<close>

text \<open>
  A key of \<open>merged\<close> starts with a prefix, and every prefix contains a dot; such a key
  is neither an array index nor \<open>__proto__\<close>, so an assignment to it is a plain update
  of the property list. The first loop either throws a \<open>TypeError\<close> or returns the
  object whose map is \<open>merged_map\<close>.
\<close>

lemma set_ownPropertyKeys: "set (ownPropertyKeys ps) = fst ` set ps"
  by (auto simp: ownPropertyKeys_def Let_def)

lemma has_own_iff: "has_own obj k \<longleftrightarrow> k \<in> fst ` set (own obj)"
  by (simp add: has_own_def map_of_eq_None_iff)

lemma dotted_not_index:
  assumes "CHR ''.'' \<in> set k"
  shows "\<not> isArrayIndex k"
proof -
  have "\<not> is_digit (CHR ''.'')" by (simp add: is_digit_def)
  with assms have "\<not> list_all is_digit k" by (auto simp: list_all_iff)
  then show ?thesis by (simp add: isArrayIndex_def)
qed

lemma ownPropertyKeys_no_index:
  "\<forall>k\<in>fst ` set ps. \<not> isArrayIndex k \<Longrightarrow> ownPropertyKeys ps = map fst ps"
  by (simp add: ownPropertyKeys_def Let_def filter_empty_conv filter_id_conv)

lemma assign_dotted:
  "CHR ''.'' \<in> set k \<Longrightarrow> assign obj k v = obj\<lparr>own := AList.update k v (own obj)\<rparr>"
  by (auto simp: assign_def)

lemma assign_other:
  "k' \<noteq> k \<Longrightarrow> map_of (own (assign obj k v)) k' = map_of (own obj) k'"
  by (auto simp: assign_def update_conv' split: jsvalue.splits)

lemma assign_same:
  "k \<noteq> ''__proto__'' \<or> has_own obj k \<Longrightarrow> map_of (own (assign obj k v)) k = Some v"
  by (auto simp: assign_def update_conv' split: jsvalue.splits)

lemma has_own_assign:
  "has_own obj k' \<Longrightarrow> has_own (assign obj k v) k'"
  by (auto simp: has_own_def assign_def update_conv' split: jsvalue.splits)

lemma as_object_sel [simp]:
  "own (as_object v) = enumerable v" "proto (as_object v) = ObjectPrototype"
  by (simp_all add: as_object_def)

lemma inherits_as_object:
  "inherits_hasOwnProperty (as_object v) \<longleftrightarrow> \<not> has_own (as_object v) ''hasOwnProperty''"
  by (simp add: inherits_hasOwnProperty_def proto_defines_def)

lemma for_in_as_object: "for_in (as_object v) = ownPropertyKeys (enumerable v)"
  by (simp add: for_in_def inherited_keys_def Let_def)

lemma set_for_in_as_object: "set (for_in (as_object v)) = fst ` set (enumerable v)"
  by (simp add: for_in_as_object set_ownPropertyKeys)

lemma addProperties_loop_ok:
  assumes "inherits_hasOwnProperty src" "\<forall>k\<in>set ks. has_own src k"
  shows "addProperties_loop t src pfx ks
     = Inr (foldl (\<lambda>t k. assign t (pfx @ k) (get src k)) t ks)"
  using assms by (induction ks arbitrary: t) (simp_all add: hasOwnProperty_def)

lemma addProperties_loop_error:
  "\<not> inherits_hasOwnProperty src \<Longrightarrow> ks \<noteq> []
     \<Longrightarrow> addProperties_loop t src pfx ks = Inl TypeError"
  by (cases ks) (simp_all add: hasOwnProperty_def)

lemma addProperties_ok:
  assumes "\<not> has_own (as_object v) ''hasOwnProperty''"
  shows "addProperties t v pfx
     = Inr (foldl (\<lambda>t k. assign t (pfx @ k) (get (as_object v) k)) t (for_in (as_object v)))"
  unfolding addProperties_def
  by (rule addProperties_loop_ok)
     (use assms in \<open>auto simp: inherits_as_object set_for_in_as_object has_own_iff\<close>)

lemma addProperties_error:
  assumes "has_own (as_object v) ''hasOwnProperty''"
  shows "addProperties t v pfx = Inl TypeError"
proof -
  have "''hasOwnProperty'' \<in> set (for_in (as_object v))"
    using assms by (simp add: set_for_in_as_object has_own_iff)
  then have "for_in (as_object v) \<noteq> []" by auto
  then show ?thesis
    unfolding addProperties_def using assms
    by (intro addProperties_loop_error) (simp_all add: inherits_as_object)
qed

lemma foldl_assign_dotted:
  assumes "CHR ''.'' \<in> set pfx"
  shows "foldl (\<lambda>t k. assign t (pfx @ k) (f k)) t ks
     = t\<lparr>own := foldl (\<lambda>al k. AList.update (pfx @ k) (f k) al) (own t) ks\<rparr>"
  using assms by (induction ks arbitrary: t) (simp_all add: assign_dotted)

lemma map_of_prefixed:
  "map_of (map (\<lambda>k. (pfx @ k, f k)) ks) (pfx @ k) = (if k \<in> set ks then Some (f k) else None)"
  by (induction ks) auto

lemma map_of_foldl_update:
  "map_of (foldl (\<lambda>al k. AList.update (pfx @ k) (f k) al) al ks)
     = map_of al ++ map_of (map (\<lambda>k. (pfx @ k, f k)) ks)"
proof (induction ks rule: rev_induct)
  case Nil
  then show ?case by simp
next
  case (snoc k ks)
  have "map_of (map (\<lambda>k. (pfx @ k, f k)) ks) (pfx @ k) = None
      \<or> map_of (map (\<lambda>k. (pfx @ k, f k)) ks) (pfx @ k) = Some (f k)"
    by (simp add: map_of_prefixed)
  then show ?case
    using snoc by (auto simp: update_conv' map_add_def fun_eq_iff split: option.splits)
qed

lemma keys_foldl_update:
  "fst ` set (foldl (\<lambda>al k. AList.update (pfx @ k) (f k) al) al ks)
     = fst ` set al \<union> (\<lambda>k. pfx @ k) ` set ks"
  by (induction ks rule: rev_induct) (auto simp: dom_update)

lemma distinct_foldl_update:
  "distinct (map fst al)
     \<Longrightarrow> distinct (map fst (foldl (\<lambda>al k. AList.update (pfx @ k) (f k) al) al ks))"
  by (induction ks rule: rev_induct) (auto simp: distinct_update)

lemma getPrefix_dotted: "CHR ''.'' \<in> set (getPrefix p)"
  using getPrefix_ends_dot [of p] last_in_set [of "getPrefix p"] by auto

lemma add_entry_plain:
  assumes "plain m"
  shows "plain (add_entry d m p)"
    and "map_of (own (add_entry d m p)) = map_of (own m) ++ map_of (contribution p (get d p))"
proof -
  let ?src = "as_object (get d p)"
  have eq: "add_entry d m p
     = m\<lparr>own := foldl (\<lambda>al k. AList.update (getPrefix p @ k) (get ?src k) al) (own m)
          (for_in ?src)\<rparr>"
    unfolding add_entry_def by (rule foldl_assign_dotted) (rule getPrefix_dotted)
  show "plain (add_entry d m p)"
    using assms getPrefix_dotted [of p]
    by (auto simp: eq plain_def keys_foldl_update distinct_foldl_update)
  show "map_of (own (add_entry d m p)) = map_of (own m) ++ map_of (contribution p (get d p))"
    by (simp add: eq map_of_foldl_update contribution_def)
qed

lemma merge_loop_ok:
  assumes "inherits_hasOwnProperty d"
    and "\<forall>p\<in>set ps. has_own d p \<longrightarrow> \<not> has_own (as_object (get d p)) ''hasOwnProperty''"
  shows "merge_loop m d ps
     = Inr (foldl (\<lambda>m p. if has_own d p then add_entry d m p else m) m ps)"
  using assms
proof (induction ps arbitrary: m)
  case Nil
  then show ?case by simp
next
  case (Cons p ps)
  show ?case
  proof (cases "has_own d p")
    case True
    with Cons.prems have "\<not> has_own (as_object (get d p)) ''hasOwnProperty''" by simp
    from addProperties_ok [OF this]
    have "addProperties m (get d p) (getPrefix p) = Inr (add_entry d m p)"
      by (simp add: add_entry_def)
    with True Cons show ?thesis
      using getPrefix_ends_dot [of p] by (simp add: hasOwnProperty_def Let_def)
  next
    case False
    with Cons show ?thesis by (simp add: hasOwnProperty_def)
  qed
qed

lemma merge_loop_error_data:
  "\<not> inherits_hasOwnProperty d \<Longrightarrow> ps \<noteq> [] \<Longrightarrow> merge_loop m d ps = Inl TypeError"
  by (cases ps) (simp_all add: hasOwnProperty_def)

lemma merge_loop_error_entry:
  assumes "inherits_hasOwnProperty d"
    and "\<exists>p\<in>set ps. has_own d p \<and> has_own (as_object (get d p)) ''hasOwnProperty''"
  shows "merge_loop m d ps = Inl TypeError"
  using assms
proof (induction ps arbitrary: m)
  case Nil
  then show ?case by simp
next
  case (Cons p ps)
  show ?case
  proof (cases "has_own d p \<and> has_own (as_object (get d p)) ''hasOwnProperty''")
    case True
    then show ?thesis
      using Cons.prems(1) getPrefix_ends_dot [of p]
      by (simp add: hasOwnProperty_def Let_def addProperties_error)
  next
    case False
    with Cons.prems have ex: "\<exists>p\<in>set ps. has_own d p \<and> has_own (as_object (get d p)) ''hasOwnProperty''"
      by auto
    show ?thesis
    proof (cases "has_own d p")
      case True
      with False have "\<not> has_own (as_object (get d p)) ''hasOwnProperty''" by simp
      from addProperties_ok [OF this]
      have "addProperties m (get d p) (getPrefix p) = Inr (add_entry d m p)"
        by (simp add: add_entry_def)
      with True Cons.prems(1) Cons.IH [OF Cons.prems(1) ex] show ?thesis
        using getPrefix_ends_dot [of p] by (simp add: hasOwnProperty_def Let_def)
    next
      case False
      with Cons.prems(1) Cons.IH [OF Cons.prems(1) ex] show ?thesis
        by (simp add: hasOwnProperty_def)
    qed
  qed
qed

lemma foldl_add_entry:
  assumes "plain m"
  shows "plain (foldl (\<lambda>m p. if has_own d p then add_entry d m p else m) m ps) \<and>
     map_of (own (foldl (\<lambda>m p. if has_own d p then add_entry d m p else m) m ps))
       = foldl (\<lambda>M p. M ++ map_of (contribution p (get d p))) (map_of (own m))
           (filter (has_own d) ps)"
  using assms
proof (induction ps arbitrary: m)
  case Nil
  then show ?case by simp
next
  case (Cons p ps)
  then show ?case using add_entry_plain [of m d p] by simp
qed

lemma filter_own_for_in: "filter (has_own d) (for_in d) = ownPropertyKeys (own d)"
proof -
  have "filter (has_own d) (ownPropertyKeys (own d)) = ownPropertyKeys (own d)"
    by (simp add: filter_id_conv set_ownPropertyKeys has_own_iff)
  moreover have "filter (has_own d)
      (filter (\<lambda>k. k \<notin> set (ownPropertyKeys (own d))) (inherited_keys (proto d))) = []"
    by (simp add: filter_empty_conv set_ownPropertyKeys has_own_iff)
  ultimately show ?thesis by (simp add: for_in_def Let_def)
qed

lemma plain_empty: "plain empty_object"
  by (simp add: plain_def empty_object_def)

lemma mergeData_ok:
  assumes "mergeable d"
  shows "\<exists>m. mergeData d = Inr m \<and> plain m \<and> map_of (own m) = merged_map d"
proof (cases "for_in d = []")
  case True
  then have "ownPropertyKeys (own d) = []"
    by (simp add: for_in_def Let_def)
  with True show ?thesis
    by (simp add: mergeData_def plain_empty merged_map_def) (simp add: empty_object_def)
next
  case False
  with assms have inh: "inherits_hasOwnProperty d"
    and ok: "\<forall>p\<in>set (for_in d). has_own d p \<longrightarrow> \<not> has_own (as_object (get d p)) ''hasOwnProperty''"
    by (auto simp: mergeable_def has_own_iff)
  from merge_loop_ok [OF inh ok] foldl_add_entry [OF plain_empty, of d "for_in d"]
  show ?thesis
    by (simp add: mergeData_def filter_own_for_in merged_map_def empty_object_def)
qed

lemma mergeData_error:
  assumes "\<not> mergeable d"
  shows "mergeData d = Inl TypeError"
proof (cases "inherits_hasOwnProperty d")
  case True
  with assms obtain p where "p \<in> fst ` set (own d)"
      "has_own (as_object (get d p)) ''hasOwnProperty''"
    by (auto simp: mergeable_def)
  then have "\<exists>p\<in>set (for_in d). has_own d p \<and> has_own (as_object (get d p)) ''hasOwnProperty''"
    by (auto simp: for_in_def Let_def set_ownPropertyKeys has_own_iff)
  from merge_loop_error_entry [OF True this] show ?thesis by (simp add: mergeData_def)
next
  case False
  with assms show ?thesis
    by (simp add: mergeData_def mergeable_def merge_loop_error_data)
qed

section \<open>The sorted rebuild and the merged map\<close>

text \<open>
  The second loop inserts the sorted keys into an empty object. None of them is an array
  index, so the object enumerates them in insertion order, which is the sorted order.
\<close>

lemma update_append_new: "k \<notin> fst ` set al \<Longrightarrow> AList.update k v al = al @ [(k, v)]"
  by (induction al) auto

lemma foldl_assign_fresh:
  assumes "distinct ks" "\<forall>k\<in>set ks. CHR ''.'' \<in> set k" "set ks \<inter> fst ` set (own obj) = {}"
  shows "foldl (\<lambda>obj k. assign obj k (f k)) obj ks
     = obj\<lparr>own := own obj @ map (\<lambda>k. (k, f k)) ks\<rparr>"
  using assms
proof (induction ks arbitrary: obj)
  case Nil
  then show ?case by simp
next
  case (Cons k ks)
  from Cons.prems have fresh: "k \<notin> fst ` set (own obj)" by auto
  have step: "assign obj k (f k) = obj\<lparr>own := own obj @ [(k, f k)]\<rparr>"
    using Cons.prems fresh by (simp add: assign_dotted update_append_new)
  have "foldl (\<lambda>obj k. assign obj k (f k)) (obj\<lparr>own := own obj @ [(k, f k)]\<rparr>) ks
     = (obj\<lparr>own := own obj @ [(k, f k)]\<rparr>)
         \<lparr>own := own (obj\<lparr>own := own obj @ [(k, f k)]\<rparr>) @ map (\<lambda>k. (k, f k)) ks\<rparr>"
    using Cons.prems by (intro Cons.IH) auto
  then show ?case by (simp add: step)
qed

lemma map_of_keyed: "map_of (map (\<lambda>k. (k, f k)) ks) k = (if k \<in> set ks then Some (f k) else None)"
  by (induction ks) auto

lemma entries_keyed:
  assumes "\<forall>k\<in>set ks. CHR ''.'' \<in> set k"
  shows "entries \<lparr>own = map (\<lambda>k. (k, f k)) ks, proto = pr\<rparr> = map (\<lambda>k. (k, f k)) ks"
proof -
  have "ownPropertyKeys (map (\<lambda>k. (k, f k)) ks) = ks"
    using assms by (subst ownPropertyKeys_no_index) (auto simp: dotted_not_index comp_def)
  then show ?thesis
    by (simp add: entries_def get_def map_of_keyed)
qed

lemma entries_orderMerged:
  assumes "plain m"
  shows "entries (orderMerged m) = map (\<lambda>k. (k, get m k)) (sort (map fst (own m)))"
proof -
  let ?ks = "sort (map fst (own m))"
  have keys: "ownPropertyKeys (own m) = map fst (own m)"
    using assms by (intro ownPropertyKeys_no_index) (auto simp: plain_def dotted_not_index)
  have "foldl (\<lambda>obj k. assign obj k (get m k)) empty_object ?ks
     = empty_object\<lparr>own := own empty_object @ map (\<lambda>k. (k, get m k)) ?ks\<rparr>"
    using assms by (intro foldl_assign_fresh) (auto simp: plain_def empty_object_def)
  then have "orderMerged m = \<lparr>own = map (\<lambda>k. (k, get m k)) ?ks, proto = ObjectPrototype\<rparr>"
    by (simp add: orderMerged_def keys empty_object_def)
  moreover have "\<forall>k\<in>set ?ks. CHR ''.'' \<in> set k"
    using assms by (auto simp: plain_def)
  ultimately show ?thesis by (simp add: entries_keyed)
qed

lemma sort_keys_of_map:
  assumes "distinct (map fst al)"
  shows "sort (map fst al) = sorted_list_of_set (dom (map_of al))"
proof -
  have "sorted_list_of_set (set (map fst al)) = sort (remdups (map fst al))"
    by (rule sorted_list_of_set_sort_remdups)
  with assms show ?thesis by (simp add: dom_map_of_conv_image_fst distinct_remdups_id)
qed

lemma mergedOrdered_ok:
  assumes "mergeable d"
  shows "mergedOrdered d
     = Inr (map (\<lambda>k. (k, the (merged_map d k))) (sorted_list_of_set (dom (merged_map d))))"
proof -
  from mergeData_ok [OF assms] obtain m
    where m: "mergeData d = Inr m" "plain m" "map_of (own m) = merged_map d" by blast
  have fin: "finite (dom (merged_map d))"
    using m(3) [symmetric] by (simp add: finite_dom_map_of)
  have "entries (orderMerged m) = map (\<lambda>k. (k, get m k)) (sorted_list_of_set (dom (merged_map d)))"
    using m by (simp add: entries_orderMerged sort_keys_of_map plain_def)
  also have "\<dots> = map (\<lambda>k. (k, the (merged_map d k))) (sorted_list_of_set (dom (merged_map d)))"
    using fin m(3) by (auto simp: get_def split: option.splits)
  finally show ?thesis by (simp add: mergedOrdered_def m(1))
qed

lemma mergedOrdered_error: "\<not> mergeable d \<Longrightarrow> mergedOrdered d = Inl TypeError"
  by (simp add: mergedOrdered_def mergeData_error)

lemma finite_dom_merged_map: "mergeable d \<Longrightarrow> finite (dom (merged_map d))"
  using mergeData_ok [of d] by (metis finite_dom_map_of)

lemma map_of_mergedOrdered:
  assumes "mergedOrdered d = Inr ordered"
  shows "map_of ordered = merged_map d"
    and "map fst ordered = sorted_list_of_set (dom (merged_map d))"
    and "finite (dom (merged_map d))"
proof -
  have ok: "mergeable d"
    using assms mergedOrdered_error [of d] by auto
  then show fin: "finite (dom (merged_map d))" by (rule finite_dom_merged_map)
  from mergedOrdered_ok [OF ok] assms
  have ord: "ordered = map (\<lambda>k. (k, the (merged_map d k))) (sorted_list_of_set (dom (merged_map d)))"
    by simp
  then show "map fst ordered = sorted_list_of_set (dom (merged_map d))"
    by (simp add: comp_def)
  show "map_of ordered = merged_map d"
  proof
    fix key
    show "map_of ordered key = merged_map d key"
      using fin by (cases "merged_map d key") (auto simp: ord map_of_keyed)
  qed
qed

text \<open>Generic facts about a fold of map overrides.\<close>

lemma dom_foldl_add:
  "dom (foldl (\<lambda>M p. M ++ C p) M0 ps) = dom M0 \<union> (\<Union>p\<in>set ps. dom (C p))"
  by (induction ps arbitrary: M0) auto

lemma foldl_add_none:
  "\<forall>p\<in>set ps. key \<notin> dom (C p) \<Longrightarrow> foldl (\<lambda>M p. M ++ C p) M0 ps key = M0 key"
  by (induction ps arbitrary: M0) (auto simp: map_add_def split: option.splits)

lemma foldl_add_last:
  assumes "key \<in> dom (C p)" "\<forall>q\<in>set after. key \<notin> dom (C q)"
  shows "foldl (\<lambda>M p. M ++ C p) M0 (before @ p # after) key = C p key"
proof -
  have "foldl (\<lambda>M p. M ++ C p) M0 (before @ p # after) key
      = (foldl (\<lambda>M p. M ++ C p) M0 before ++ C p) key"
    using assms(2) by (simp add: foldl_add_none)
  then show ?thesis using assms(1) by (auto simp: map_add_def split: option.splits)
qed

lemma foldl_add_disjoint:
  assumes "\<forall>p\<in>set ps. \<forall>q\<in>set ps. p \<noteq> q \<longrightarrow> dom (C p) \<inter> dom (C q) = {}"
    and "p \<in> set ps" "key \<in> dom (C p)"
  shows "foldl (\<lambda>M p. M ++ C p) M0 ps key = C p key"
proof -
  from split_list_last [OF assms(2)] obtain before after
    where ps: "ps = before @ p # after" "p \<notin> set after" by blast
  have "\<forall>q\<in>set after. key \<notin> dom (C q)"
  proof
    fix q assume q: "q \<in> set after"
    with ps have "q \<in> set ps" "p \<noteq> q" by auto
    with assms(1,2) have "dom (C p) \<inter> dom (C q) = {}" by blast
    with assms(3) show "key \<notin> dom (C q)" by blast
  qed
  with assms(3) show ?thesis unfolding ps(1) by (rule foldl_add_last)
qed

lemma foldl_add_permute:
  assumes "\<forall>p\<in>set ps. \<forall>q\<in>set ps. p \<noteq> q \<longrightarrow> dom (C p) \<inter> dom (C q) = {}"
    and "set ps = set qs"
  shows "foldl (\<lambda>M p. M ++ C p) M0 ps = foldl (\<lambda>M p. M ++ C p) M0 qs"
proof
  fix key
  show "foldl (\<lambda>M p. M ++ C p) M0 ps key = foldl (\<lambda>M p. M ++ C p) M0 qs key"
  proof (cases "\<exists>p\<in>set ps. key \<in> dom (C p)")
    case True
    then obtain p where p: "p \<in> set ps" "key \<in> dom (C p)" by blast
    have "foldl (\<lambda>M p. M ++ C p) M0 ps key = C p key"
      using assms(1) p by (rule foldl_add_disjoint)
    moreover have "foldl (\<lambda>M p. M ++ C p) M0 qs key = C p key"
      using assms p by (intro foldl_add_disjoint) auto
    ultimately show ?thesis by simp
  next
    case False
    then show ?thesis using assms(2) by (simp add: foldl_add_none)
  qed
qed

lemma keys_contribution:
  "fst ` set (contribution p v) = (\<lambda>k. getPrefix p @ k) ` fst ` set (enumerable v)"
  by (simp add: contribution_def set_for_in_as_object image_image)

lemma dom_merged_map:
  "dom (merged_map d)
     = (\<Union>p\<in>fst ` set (own d). (\<lambda>k. getPrefix p @ k) ` fst ` set (enumerable (get d p)))"
  by (simp add: merged_map_def dom_foldl_add set_ownPropertyKeys dom_map_of_conv_image_fst
      keys_contribution)

lemma map_of_contribution:
  "k \<in> fst ` set (enumerable v)
     \<Longrightarrow> map_of (contribution p v) (getPrefix p @ k) = Some (get (as_object v) k)"
  by (simp add: contribution_def map_of_prefixed set_for_in_as_object)

section \<open>Lemmas for the claims about merging and files\<close>

text \<open>
  The facts behind the theorems of the last section: what \<open>addProperties\<close> does to a
  target, which entry wins a collision, when the order of the entries does not matter,
  and how \<open>treatFile\<close> treats a file that does not parse or that re-uses a path.
\<close>

lemma treatMergedData_keys_sorted:
  assumes "mergeable d"
  shows "\<exists>ordered. mergedOrdered d = Inr ordered
     \<and> treatMergedData stringify d = Inr (stringify ordered)
     \<and> set (map fst ordered)
         = (\<Union>p\<in>fst ` set (own d). (\<lambda>k. getPrefix p @ k) ` fst ` set (enumerable (get d p)))
     \<and> sorted_wrt (<) (map fst ordered)"
proof -
  from mergedOrdered_ok [OF assms] obtain ordered where o: "mergedOrdered d = Inr ordered"
    by blast
  from map_of_mergedOrdered [OF o]
  have "map fst ordered = sorted_list_of_set (dom (merged_map d))"
    and "finite (dom (merged_map d))" by blast+
  then have "set (map fst ordered) = dom (merged_map d)" "sorted_wrt (<) (map fst ordered)"
    by simp_all
  with o show ?thesis
    by (auto simp: treatMergedData_def dom_merged_map)
qed

lemma get_Some: "map_of (own obj) k = Some v \<Longrightarrow> get obj k = v"
  by (simp add: get_def)

lemma foldl_assign_map:
  "(\<forall>key. key \<notin> (\<lambda>k. pfx @ k) ` set ks
      \<longrightarrow> map_of (own (foldl (\<lambda>t k. assign t (pfx @ k) (f k)) t ks)) key = map_of (own t) key) \<and>
   (\<forall>k\<in>set ks. pfx @ k \<noteq> ''__proto__'' \<or> has_own t (pfx @ k)
      \<longrightarrow> map_of (own (foldl (\<lambda>t k. assign t (pfx @ k) (f k)) t ks)) (pfx @ k) = Some (f k))"
proof (induction ks arbitrary: t)
  case Nil
  then show ?case by simp
next
  case (Cons a ks)
  let ?t1 = "assign t (pfx @ a) (f a)"
  let ?r = "foldl (\<lambda>t k. assign t (pfx @ k) (f k)) ?t1 ks"
  note IH = Cons.IH [of ?t1]
  have 1: "map_of (own ?r) key = map_of (own t) key" if "key \<notin> (\<lambda>k. pfx @ k) ` set (a # ks)" for key
  proof -
    from that have "key \<notin> (\<lambda>k. pfx @ k) ` set ks" "key \<noteq> pfx @ a" by auto
    with IH show ?thesis by (simp add: assign_other)
  qed
  have 2: "map_of (own ?r) (pfx @ k) = Some (f k)"
    if "k \<in> set (a # ks)" "pfx @ k \<noteq> ''__proto__'' \<or> has_own t (pfx @ k)" for k
  proof (cases "k \<in> set ks")
    case True
    from that(2) have "pfx @ k \<noteq> ''__proto__'' \<or> has_own ?t1 (pfx @ k)"
      by (auto simp: has_own_assign)
    with IH True show ?thesis by blast
  next
    case False
    with that(1) have ka: "k = a" by simp
    with False have "pfx @ a \<notin> (\<lambda>k. pfx @ k) ` set ks" by auto
    with IH have "map_of (own ?r) (pfx @ a) = map_of (own ?t1) (pfx @ a)" by blast
    with that(2) ka show ?thesis by (simp add: assign_same)
  qed
  from 1 2 show ?case by simp
qed

lemma addProperties_overwrites:
  assumes "\<not> has_own (as_object source) ''hasOwnProperty''"
  shows "\<exists>target'. addProperties target source pfx = Inr target' \<and>
     (\<forall>k\<in>fst ` set (enumerable source). has_own target (pfx @ k)
        \<longrightarrow> get target' (pfx @ k) = get (as_object source) k) \<and>
     (\<forall>key. key \<notin> (\<lambda>k. pfx @ k) ` fst ` set (enumerable source)
        \<longrightarrow> map_of (own target') key = map_of (own target) key)"
proof -
  let ?src = "as_object source"
  let ?t' = "foldl (\<lambda>t k. assign t (pfx @ k) (get ?src k)) target (for_in ?src)"
  have "addProperties target source pfx = Inr ?t'"
    using assms by (rule addProperties_ok)
  moreover have "\<forall>k\<in>fst ` set (enumerable source). has_own target (pfx @ k)
        \<longrightarrow> get ?t' (pfx @ k) = get ?src k"
  proof (intro ballI impI)
    fix k assume k: "k \<in> fst ` set (enumerable source)" and h: "has_own target (pfx @ k)"
    from k have "k \<in> set (for_in ?src)" by (simp add: set_for_in_as_object)
    with foldl_assign_map [of pfx "for_in ?src" "get ?src" target] h
    have "map_of (own ?t') (pfx @ k) = Some (get ?src k)" by blast
    then show "get ?t' (pfx @ k) = get ?src k" by (rule get_Some)
  qed
  moreover have "\<forall>key. key \<notin> (\<lambda>k. pfx @ k) ` fst ` set (enumerable source)
        \<longrightarrow> map_of (own ?t') key = map_of (own target) key"
    using foldl_assign_map [of pfx "for_in ?src" "get ?src" target]
    by (simp add: set_for_in_as_object)
  ultimately show ?thesis by blast
qed

lemma last_enumerated_wins:
  assumes "mergedOrdered d = Inr ordered"
    and "ownPropertyKeys (own d) = before @ p # after"
    and "k \<in> fst ` set (enumerable (get d p))"
    and "\<forall>q\<in>set after. getPrefix p @ k \<notin> fst ` set (contribution q (get d q))"
  shows "map_of ordered (getPrefix p @ k) = Some (get (as_object (get d p)) k)"
proof -
  let ?C = "\<lambda>p. map_of (contribution p (get d p))"
  have "getPrefix p @ k \<in> dom (?C p)"
    using assms(3) by (simp add: dom_map_of_conv_image_fst keys_contribution)
  moreover have "\<forall>q\<in>set after. getPrefix p @ k \<notin> dom (?C q)"
    using assms(4) by (simp add: dom_map_of_conv_image_fst)
  ultimately have "foldl (\<lambda>M p. M ++ ?C p) Map.empty (before @ p # after) (getPrefix p @ k)
      = ?C p (getPrefix p @ k)"
    by (rule foldl_add_last)
  then have "merged_map d (getPrefix p @ k) = Some (get (as_object (get d p)) k)"
    using assms(2,3) by (simp add: merged_map_def map_of_contribution)
  with map_of_mergedOrdered(1) [OF assms(1)] show ?thesis by simp
qed

lemma ownPropertyKeys_update:
  assumes "\<not> isArrayIndex k"
  shows "ownPropertyKeys (AList.update k v al)
     = (if k \<in> fst ` set al then ownPropertyKeys al else ownPropertyKeys al @ [k])"
  using assms by (simp add: ownPropertyKeys_def Let_def update_keys)

lemma treatFile_parsed:
  assumes "contents file = BufferContents text" "parse text = Some parsed"
  shows "data (treatFile parse file st) = assign (data st) (logicalPath (path file)) parsed"
    and "console (treatFile parse file st) = console st"
  using assms by (simp_all add: treatFile_def Let_def)

lemma assign_plain_key:
  "k \<noteq> ''__proto__'' \<Longrightarrow> assign obj k v = obj\<lparr>own := AList.update k v (own obj)\<rparr>"
  by (simp add: assign_def)

lemma treatFile_enumeration:
  assumes "contents file = BufferContents text" "parse text = Some parsed"
    and "logicalPath (path file) \<noteq> ''__proto__''" "\<not> isArrayIndex (logicalPath (path file))"
  shows "ownPropertyKeys (own (data (treatFile parse file st)))
     = (if has_own (data st) (logicalPath (path file)) then ownPropertyKeys (own (data st))
        else ownPropertyKeys (own (data st)) @ [logicalPath (path file)])"
  using assms
  by (simp add: treatFile_parsed assign_plain_key ownPropertyKeys_update has_own_iff)

lemma same_entries:
  assumes "distinct (map fst (own d1))" "distinct (map fst (own d2))"
    and "set (own d1) = set (own d2)"
  shows "map_of (own d1) = map_of (own d2)" "get d1 = get d2" "has_own d1 = has_own d2"
proof -
  show m: "map_of (own d1) = map_of (own d2)"
    using assms by (simp add: map_of_inject_set)
  show "get d1 = get d2" by (simp add: get_def fun_eq_iff m)
  show "has_own d1 = has_own d2" by (simp add: has_own_def fun_eq_iff m)
qed

lemma set_for_in: "set (for_in d) = fst ` set (own d) \<union> set (inherited_keys (proto d))"
  by (auto simp: for_in_def Let_def set_ownPropertyKeys)

lemma mergeable_cong:
  assumes "map_of (own d1) = map_of (own d2)" "proto d1 = proto d2"
  shows "mergeable d1 = mergeable d2"
proof -
  have k: "fst ` set (own d1) = fst ` set (own d2)"
    using assms(1) by (metis dom_map_of_conv_image_fst)
  have g: "get d1 = get d2" by (simp add: get_def fun_eq_iff assms(1))
  have "set (for_in d1) = set (for_in d2)" by (simp add: set_for_in k assms(2))
  then have "(for_in d1 = []) = (for_in d2 = [])" by (metis set_empty)
  moreover have "inherits_hasOwnProperty d1 = inherits_hasOwnProperty d2"
    by (simp add: inherits_hasOwnProperty_def has_own_def assms)
  ultimately show ?thesis by (simp add: mergeable_def k g)
qed

lemma treatMergedData_cong:
  assumes "merged_map d1 = merged_map d2" "mergeable d1 = mergeable d2"
  shows "mergedOrdered d1 = mergedOrdered d2"
    and "treatMergedData stringify d1 = treatMergedData stringify d2"
proof -
  show "mergedOrdered d1 = mergedOrdered d2"
    using assms by (cases "mergeable d1") (simp_all add: mergedOrdered_ok mergedOrdered_error)
  then show "treatMergedData stringify d1 = treatMergedData stringify d2"
    by (simp add: treatMergedData_def)
qed

lemma order_insensitive:
  assumes "distinct (map fst (own d1))" "distinct (map fst (own d2))"
    and "set (own d1) = set (own d2)" "proto d1 = proto d2"
    and "\<forall>p\<in>fst ` set (own d1). \<forall>q\<in>fst ` set (own d1). p \<noteq> q \<longrightarrow>
           fst ` set (contribution p (get d1 p)) \<inter> fst ` set (contribution q (get d1 q)) = {}"
  shows "treatMergedData stringify d1 = treatMergedData stringify d2"
proof -
  note se = same_entries [OF assms(1-3)]
  let ?C = "\<lambda>p. map_of (contribution p (get d1 p))"
  have keys: "set (ownPropertyKeys (own d1)) = set (ownPropertyKeys (own d2))"
    using assms(3) by (simp add: set_ownPropertyKeys)
  have disj: "\<forall>p\<in>set (ownPropertyKeys (own d1)). \<forall>q\<in>set (ownPropertyKeys (own d1)).
      p \<noteq> q \<longrightarrow> dom (?C p) \<inter> dom (?C q) = {}"
    using assms(5) by (simp add: set_ownPropertyKeys dom_map_of_conv_image_fst)
  have "foldl (\<lambda>M p. M ++ ?C p) Map.empty (ownPropertyKeys (own d1))
      = foldl (\<lambda>M p. M ++ ?C p) Map.empty (ownPropertyKeys (own d2))"
    using disj keys by (rule foldl_add_permute)
  then have "merged_map d1 = merged_map d2"
    by (simp add: merged_map_def se(2))
  moreover have "mergeable d1 = mergeable d2"
    using se(1) assms(4) by (rule mergeable_cong)
  ultimately show ?thesis by (rule treatMergedData_cong)
qed



lemma treatFiles_append:
  "treatFiles parse (xs @ ys) st = treatFiles parse ys (treatFiles parse xs st)"
  by (simp add: treatFiles_def)

lemma treatFiles_Cons:
  "treatFiles parse (x # xs) st = treatFiles parse xs (treatFile parse x st)"
  by (simp add: treatFiles_def)

lemma treatFiles_Nil: "treatFiles parse [] st = st"
  by (simp add: treatFiles_def)



lemma agree_off_assign:
  assumes "p \<noteq> ''__proto__''" "agree_off p s s'"
  shows "agree_off p (assign s q v) (assign s' q v)"
proof (cases "q = ''__proto__''")
  case True
  with assms have "has_own s q = has_own s' q" "proto s = proto s'"
    by (auto simp: agree_off_def has_own_def)
  with assms(2) show ?thesis
    by (auto simp: agree_off_def assign_def update_conv' split: jsvalue.splits)
next
  case False
  with assms(2) show ?thesis
    by (auto simp: agree_off_def assign_plain_key update_conv')
qed

lemma agree_off_treatFile:
  assumes "p \<noteq> ''__proto__''" "agree_off p (data st) (data st')"
  shows "agree_off p (data (treatFile parse file st)) (data (treatFile parse file st'))"
  using assms
  by (auto simp: treatFile_def Let_def agree_off_assign split: contents.splits option.splits)

lemma agree_off_treatFiles:
  assumes "p \<noteq> ''__proto__''" "agree_off p (data st) (data st')"
  shows "agree_off p (data (treatFiles parse files st)) (data (treatFiles parse files st'))"
  using assms(2)
proof (induction files arbitrary: st st')
  case Nil
  then show ?case by (simp add: treatFiles_Nil)
next
  case (Cons f fs)
  from assms(1) Cons.prems
  have "agree_off p (data (treatFile parse f st)) (data (treatFile parse f st'))"
    by (rule agree_off_treatFile)
  from Cons.IH [OF this] show ?case by (simp only: treatFiles_Cons)
qed

lemma agree_off_first:
  assumes "logicalPath (path file) = p" "p \<noteq> ''__proto__''"
  shows "agree_off p (data (treatFile parse file st)) (data st)"
  using assms
  by (auto simp: treatFile_def Let_def agree_off_def assign_plain_key update_conv'
      split: contents.splits option.splits)

lemma agree_off_close:
  assumes "p \<noteq> ''__proto__''" "agree_off p s s'"
  shows "map_of (own (assign s p v)) = map_of (own (assign s' p v))"
    and "proto (assign s p v) = proto (assign s' p v)"
  using assms by (auto simp: agree_off_def assign_plain_key update_conv' fun_eq_iff)

lemma mergedOrdered_keys_cong:
  assumes "map_of (own d1) = map_of (own d2)" "proto d1 = proto d2"
  shows "map_sum id (map fst) (mergedOrdered d1) = map_sum id (map fst) (mergedOrdered d2)"
proof -
  have m: "mergeable d1 = mergeable d2" using assms by (rule mergeable_cong)
  have k: "fst ` set (own d1) = fst ` set (own d2)"
    using assms(1) by (metis dom_map_of_conv_image_fst)
  have g: "get d1 = get d2" by (simp add: get_def fun_eq_iff assms(1))
  have "dom (merged_map d1) = dom (merged_map d2)"
    by (simp add: dom_merged_map k g)
  then show ?thesis
    using m by (cases "mergeable d1") (simp_all add: mergedOrdered_ok mergedOrdered_error comp_def)
qed

lemma later_replaces:
  assumes "logicalPath (path f1) = logicalPath (path f2)"
    and "logicalPath (path f2) \<noteq> ''__proto__''"
    and "contents f2 = BufferContents text2" "parse text2 = Some parsed2"
  shows "get (data (treatFiles parse (f1 # between @ [f2]) st)) (logicalPath (path f2)) = parsed2"
    and "map_of (own (data (treatFiles parse (f1 # between @ [f2]) st)))
       = map_of (own (data (treatFiles parse (between @ [f2]) st)))"
    and "map_sum id (map fst) (mergedOrdered (data (treatFiles parse (f1 # between @ [f2]) st)))
       = map_sum id (map fst) (mergedOrdered (data (treatFiles parse (between @ [f2]) st)))"
    and "data (treatFiles parse [f1, f2] st) = data (treatFiles parse [f2] st)"
proof -
  let ?p = "logicalPath (path f2)"
  let ?A = "treatFiles parse between (treatFile parse f1 st)"
  let ?B = "treatFiles parse between st"
  have A: "data (treatFiles parse (f1 # between @ [f2]) st) = assign (data ?A) ?p parsed2"
    using assms(3,4) by (simp add: treatFiles_append treatFiles_Cons treatFiles_def treatFile_parsed)
  have B: "data (treatFiles parse (between @ [f2]) st) = assign (data ?B) ?p parsed2"
    using assms(3,4) by (simp add: treatFiles_append treatFiles_Cons treatFiles_def treatFile_parsed)
  have "agree_off ?p (data (treatFile parse f1 st)) (data st)"
    using assms(1,2) by (intro agree_off_first) simp_all
  then have ag: "agree_off ?p (data ?A) (data ?B)"
    by (rule agree_off_treatFiles [OF assms(2)])
  show "get (data (treatFiles parse (f1 # between @ [f2]) st)) ?p = parsed2"
    using assms(2) by (simp add: A get_def assign_same)
  show m: "map_of (own (data (treatFiles parse (f1 # between @ [f2]) st)))
       = map_of (own (data (treatFiles parse (between @ [f2]) st)))"
    unfolding A B using assms(2) ag by (rule agree_off_close)
  have pr: "proto (data (treatFiles parse (f1 # between @ [f2]) st))
       = proto (data (treatFiles parse (between @ [f2]) st))"
    unfolding A B using assms(2) ag by (rule agree_off_close)
  from m pr show "map_sum id (map fst) (mergedOrdered (data (treatFiles parse (f1 # between @ [f2]) st)))
       = map_sum id (map fst) (mergedOrdered (data (treatFiles parse (between @ [f2]) st)))"
    by (rule mergedOrdered_keys_cong)
  have "assign (data (treatFile parse f1 st)) ?p parsed2 = assign (data st) ?p parsed2"
    using assms(1,2)
    by (auto simp: treatFile_def Let_def assign_plain_key split: contents.splits option.splits)
  then show "data (treatFiles parse [f1, f2] st) = data (treatFiles parse [f2] st)"
    using assms(3,4) by (simp add: treatFiles_def treatFile_parsed)
qed

section \<open>The serialised text and the files behind \<open>data\<close>\<close>

lemma SerializeJSONProperty_defined:
  "v \<noteq> JUndefined \<Longrightarrow> \<exists>strP. SerializeJSONProperty num indent v = Some strP"
  by (cases v) (simp_all add: Let_def)

lemma map_filter_all:
  "\<forall>x\<in>set xs. f x = Some (g x) \<Longrightarrow> List.map_filter f xs = map g xs"
  by (induction xs) (simp_all add: List.map_filter_simps)

lemma map_of_rendered:
  assumes "distinct (map fst props)" "(k, v) \<in> set props"
  shows "map_of (map (\<lambda>kv. (fst kv, f (snd kv))) props) k = Some (f v)"
  using assms by (induction props) (auto simp: rev_image_eqI)

lemma JSON_stringify_shape:
  assumes d: "distinct (map fst props)"
    and ni: "\<forall>k\<in>fst ` set props. \<not> isArrayIndex k"
    and tx: "map (SerializeJSONProperty num gap \<circ> snd) props = map Some texts"
  shows "JSON_stringify num props
     = wrap ''{'' ''}'' []
         (map2 (\<lambda>k strP. QuoteJSONString k @ '': '' @ strP) (map fst props) texts)"
proof -
  let ?S = "SerializeJSONProperty num gap"
  let ?rendered = "map (\<lambda>kv. (fst kv, ?S (snd kv))) props"
  let ?f = "\<lambda>P. case map_of ?rendered P of
                     Some (Some strP) \<Rightarrow> Some (QuoteJSONString P @ '': '' @ strP)
                   | _ \<Rightarrow> None"
  let ?g = "\<lambda>kv. QuoteJSONString (fst kv) @ '': '' @ the (?S (snd kv))"
  have len: "length texts = length props"
    using tx by (metis length_map)
  have each: "?S (snd (props ! i)) = Some (texts ! i)" if "i < length props" for i
  proof -
    have "map (?S \<circ> snd) props ! i = map Some texts ! i" using tx by simp
    with that len show ?thesis by simp
  qed
  have keys: "ownPropertyKeys (AList.clearjunk props) = map fst props"
    using d ni by (simp add: distinct_clearjunk_id ownPropertyKeys_no_index)
  have "\<forall>kv\<in>set props. ?f (fst kv) = Some (?g kv)"
  proof
    fix kv assume kv: "kv \<in> set props"
    then obtain i where i: "i < length props" "props ! i = kv" by (auto simp: in_set_conv_nth)
    from kv have "(fst kv, snd kv) \<in> set props" by simp
    from map_of_rendered [OF d this, of ?S]
    have "map_of ?rendered (fst kv) = Some (?S (snd kv))" .
    moreover from each [OF i(1)] i(2) have "?S (snd kv) = Some (texts ! i)" by simp
    ultimately show "?f (fst kv) = Some (?g kv)" by simp
  qed
  then have "\<forall>kv\<in>set props. (?f \<circ> fst) kv = Some (?g kv)" by simp
  then have "List.map_filter (?f \<circ> fst) props = map ?g props"
    by (rule map_filter_all)
  moreover have "List.map_filter ?f (map fst props) = List.map_filter (?f \<circ> fst) props"
    by (simp add: List.map_filter_def comp_def filter_map)
  ultimately have mf: "List.map_filter ?f (map fst props) = map ?g props" by simp
  have "map ?g props = map2 (\<lambda>k strP. QuoteJSONString k @ '': '' @ strP) (map fst props) texts"
  proof (rule nth_equalityI)
    show "length (map ?g props)
        = length (map2 (\<lambda>k strP. QuoteJSONString k @ '': '' @ strP) (map fst props) texts)"
      using len by simp
  next
    fix i assume "i < length (map ?g props)"
    then have i: "i < length props" by simp
    with len each [OF i]
    show "map ?g props ! i
        = map2 (\<lambda>k strP. QuoteJSONString k @ '': '' @ strP) (map fst props) texts ! i"
      by simp
  qed
  with mf have "List.map_filter ?f (map fst props)
      = map2 (\<lambda>k strP. QuoteJSONString k @ '': '' @ strP) (map fst props) texts"
    by simp
  then show ?thesis
    by (simp add: JSON_stringify_def Let_def keys)
qed

lemma treatFile_data:
  "data (treatFile parse f st)
     = (case parsed_contents parse f of
          None \<Rightarrow> data st
        | Some v \<Rightarrow> assign (data st) (logicalPath (path f)) v)"
  by (simp add: treatFile_def parsed_contents_def Let_def split: contents.splits option.splits)

lemma treatFiles_untouched:
  assumes "\<forall>g\<in>set fs. parsed_contents parse g \<noteq> None \<longrightarrow> logicalPath (path g) \<noteq> p"
  shows "map_of (own (data (treatFiles parse fs st))) p = map_of (own (data st)) p"
  using assms
proof (induction fs arbitrary: st)
  case Nil
  then show ?case by (simp add: treatFiles_Nil)
next
  case (Cons f fs)
  have "map_of (own (data (treatFile parse f st))) p = map_of (own (data st)) p"
    using Cons.prems by (auto simp: treatFile_data assign_other split: option.splits)
  moreover have "map_of (own (data (treatFiles parse fs (treatFile parse f st)))) p
      = map_of (own (data (treatFile parse f st))) p"
    using Cons.prems by (intro Cons.IH) simp
  ultimately show ?case by (simp only: treatFiles_Cons)
qed

lemma assign_proto_kept: "k \<noteq> ''__proto__'' \<Longrightarrow> proto (assign obj k v) = proto obj"
  by (simp add: assign_def)

lemma treatFiles_proto_kept:
  assumes "\<forall>g\<in>set fs. parsed_contents parse g \<noteq> None \<longrightarrow> logicalPath (path g) \<noteq> ''__proto__''"
  shows "proto (data (treatFiles parse fs st)) = proto (data st)"
  using assms
proof (induction fs arbitrary: st)
  case Nil
  then show ?case by (simp add: treatFiles_Nil)
next
  case (Cons f fs)
  have "proto (data (treatFile parse f st)) = proto (data st)"
    using Cons.prems by (auto simp: treatFile_data assign_proto_kept split: option.splits)
  moreover have "proto (data (treatFiles parse fs (treatFile parse f st)))
      = proto (data (treatFile parse f st))"
    using Cons.prems by (intro Cons.IH) simp
  ultimately show ?case by (simp only: treatFiles_Cons)
qed

lemma last_parsed_stored:
  assumes "parsed_contents parse f = Some v"
    and "logicalPath (path f) \<noteq> ''__proto__''"
    and "\<forall>g\<in>set after. parsed_contents parse g \<noteq> None
           \<longrightarrow> logicalPath (path g) \<noteq> logicalPath (path f)"
  shows "map_of (own (data (treatFiles parse (before @ f # after) st))) (logicalPath (path f))
     = Some v"
proof -
  let ?s1 = "treatFiles parse before st"
  have "map_of (own (data (treatFile parse f ?s1))) (logicalPath (path f)) = Some v"
    using assms(1,2) by (simp add: treatFile_data assign_same)
  moreover have "map_of (own (data (treatFiles parse after (treatFile parse f ?s1))))
        (logicalPath (path f))
      = map_of (own (data (treatFile parse f ?s1))) (logicalPath (path f))"
    using assms(3) by (rule treatFiles_untouched)
  ultimately show ?thesis by (simp only: treatFiles_append treatFiles_Cons)
qed

lemma stored_is_last_parsed:
  assumes "map_of (own (data (treatFiles parse fs st))) p = Some v"
    and "map_of (own (data st)) p = None"
    and "\<forall>g\<in>set fs. parsed_contents parse g \<noteq> None \<longrightarrow> logicalPath (path g) \<noteq> ''__proto__''"
  shows "\<exists>before f after. fs = before @ f # after \<and> parsed_contents parse f = Some v
     \<and> logicalPath (path f) = p
     \<and> (\<forall>g\<in>set after. parsed_contents parse g \<noteq> None
           \<longrightarrow> logicalPath (path g) \<noteq> logicalPath (path f))"
proof -
  let ?P = "\<lambda>g. parsed_contents parse g \<noteq> None \<and> logicalPath (path g) = p"
  have "\<exists>g\<in>set fs. ?P g"
  proof (rule ccontr)
    assume "\<not> (\<exists>g\<in>set fs. ?P g)"
    then have "\<forall>g\<in>set fs. parsed_contents parse g \<noteq> None \<longrightarrow> logicalPath (path g) \<noteq> p"
      by blast
    from treatFiles_untouched [OF this, of st] assms(1,2) show False by simp
  qed
  from split_list_last_prop [OF this] obtain before f after
    where fs: "fs = before @ f # after" and Pf: "?P f" and later: "\<forall>z\<in>set after. \<not> ?P z"
    by blast
  from Pf obtain w where w: "parsed_contents parse f = Some w" by auto
  have np: "logicalPath (path f) \<noteq> ''__proto__''"
    using assms(3) fs w by auto
  have lt: "\<forall>g\<in>set after. parsed_contents parse g \<noteq> None
           \<longrightarrow> logicalPath (path g) \<noteq> logicalPath (path f)"
    using later Pf by auto
  from last_parsed_stored [OF w np lt, of before st] assms(1) Pf fs have "w = v" by simp
  with w Pf fs lt show ?thesis by blast
qed

lemma foldl_add_source:
  "foldl (\<lambda>M p. M ++ C p) M0 ps key = Some x
     \<Longrightarrow> M0 key = Some x \<or> (\<exists>p\<in>set ps. C p key = Some x)"
proof (induction ps arbitrary: M0)
  case Nil
  then show ?case by simp
next
  case (Cons a ps)
  from Cons.prems have "foldl (\<lambda>M p. M ++ C p) (M0 ++ C a) ps key = Some x" by simp
  from Cons.IH [OF this] show ?case
  proof
    assume "(M0 ++ C a) key = Some x"
    then show ?thesis by (cases "C a key") (simp_all add: map_add_def)
  next
    assume "\<exists>p\<in>set ps. C p key = Some x"
    then show ?thesis by auto
  qed
qed

lemma contribution_value:
  assumes "map_of (contribution p v) key = Some x"
  shows "x \<in> snd ` set (enumerable v)"
proof -
  from assms have "(key, x) \<in> set (contribution p v)" by (rule map_of_SomeD)
  then obtain k where k: "k \<in> set (for_in (as_object v))" and x: "x = get (as_object v) k"
    by (auto simp: contribution_def)
  from k have "k \<in> fst ` set (enumerable v)" by (simp add: set_for_in_as_object)
  then obtain y where "map_of (enumerable v) k = Some y"
    by (metis domD dom_map_of_conv_image_fst)
  then have "get (as_object v) k = y" "(k, y) \<in> set (enumerable v)"
    by (simp_all add: get_def map_of_SomeD)
  with x show ?thesis by (metis image_eqI snd_conv)
qed

lemma merged_map_value:
  assumes "merged_map d key = Some x"
  shows "\<exists>p\<in>fst ` set (own d). x \<in> snd ` set (enumerable (get d p))"
proof -
  from assms foldl_add_source
    [of "\<lambda>p. map_of (contribution p (get d p))" Map.empty "ownPropertyKeys (own d)" key x]
  obtain p where "p \<in> set (ownPropertyKeys (own d))"
      "map_of (contribution p (get d p)) key = Some x"
    by (auto simp: merged_map_def)
  then have "p \<in> fst ` set (own d)" "x \<in> snd ` set (enumerable (get d p))"
    by (simp_all add: set_ownPropertyKeys contribution_value)
  then show ?thesis by blast
qed

lemma merged_map_key_dotted:
  assumes "key \<in> dom (merged_map d)"
  shows "CHR ''.'' \<in> set key"
  using assms getPrefix_dotted by (auto simp: dom_merged_map)


section \<open>The merge, the files and the output\<close>

text \<open>Unfolding sets for evaluating the functions at sample inputs.\<close>

lemmas path_eval = logicalPath_def lastIndexOf_def occurs_at_def substr_def backslash_def Let_def

lemmas object_eval = mergedOrdered_def mergeData_def orderMerged_def entries_def for_in_def
  inherited_keys_def ownPropertyKeys_def isArrayIndex_def is_digit_def decimal_value_def
  hasOwnProperty_def inherits_hasOwnProperty_def has_own_def proto_defines_def get_def
  assign_def addProperties_def as_object_def empty_object_def getPrefix_def is_separator_def
  is_dot_def at_index_def Let_def

lemmas file_eval = treatFiles_def treatFile_def initial_state_def sample_parse_def

lemmas text_eval = serialize_def JSON_stringify_def bufferFrom_def utf8_def wrap_def gap_def
  newline_def QuoteJSONString_def quote_char_def List.map_filter_def

text \<open>
  C1, as the code has it. Let no successfully parsed file of the list have the logical
  path \<open>__proto__\<close> or \<open>hasOwnProperty\<close>, and let no parsed mapping have an own key named
  \<open>hasOwnProperty\<close> or a member whose value is \<open>undefined\<close> (\<open>JSON.parse\<close> returns none).
  Then \<open>treatMergedData\<close>, applied to the \<open>data\<close> that \<open>treatFile\<close> accumulates from the
  list, returns a buffer. The key set of the merged object is exactly the union, over the
  successfully parsed files that no later successfully parsed file shares its logical
  path with, of the file's prefix followed by each own key of its mapping. The buffer is
  the UTF-8 encoding of the text of \<open>JSON.stringify(mergedOrdered, null, 4)\<close>: one member
  \<open>"key": value\<close> per key of that set, in strictly ascending order of the keys.
\<close>

theorem treatMergedData_keys_union_sorted:
  assumes paths_ok: "\<forall>f\<in>set files. parsed_contents parse f \<noteq> None \<longrightarrow>
        logicalPath (path f) \<noteq> ''__proto__'' \<and> logicalPath (path f) \<noteq> ''hasOwnProperty''"
    and values_ok: "\<forall>f\<in>set files. \<forall>v. parsed_contents parse f = Some v \<longrightarrow>
        \<not> has_own (as_object v) ''hasOwnProperty'' \<and> JUndefined \<notin> snd ` set (enumerable v)"
  shows "\<exists>ordered texts.
     mergedOrdered (data (treatFiles parse files initial_state)) = Inr ordered
     \<and> set (map fst ordered)
         = {getPrefix (logicalPath (path f)) @ k | before f after v k.
              files = before @ f # after \<and> parsed_contents parse f = Some v
              \<and> (\<forall>g\<in>set after. parsed_contents parse g \<noteq> None
                    \<longrightarrow> logicalPath (path g) \<noteq> logicalPath (path f))
              \<and> k \<in> fst ` set (enumerable v)}
     \<and> sorted_wrt (<) (map fst ordered)
     \<and> map (SerializeJSONProperty num gap \<circ> snd) ordered = map Some texts
     \<and> treatMergedData (serialize num) (data (treatFiles parse files initial_state))
         = Inr (bufferFrom (wrap ''{'' ''}'' []
             (map2 (\<lambda>k strP. QuoteJSONString k @ '': '' @ strP) (map fst ordered) texts)))"
proof -
  let ?d = "data (treatFiles parse files initial_state)"
  have init: "map_of (own (data initial_state)) q = None" for q
    by (simp add: initial_state_def empty_object_def)
  have np: "\<forall>g\<in>set files. parsed_contents parse g \<noteq> None
      \<longrightarrow> logicalPath (path g) \<noteq> ''__proto__''"
    using paths_ok by blast
  have stored: "\<exists>before f after. files = before @ f # after \<and> parsed_contents parse f = Some v
       \<and> logicalPath (path f) = p
       \<and> (\<forall>g\<in>set after. parsed_contents parse g \<noteq> None
             \<longrightarrow> logicalPath (path g) \<noteq> logicalPath (path f))"
    if "map_of (own ?d) p = Some v" for p v
    using that init np by (rule stored_is_last_parsed)
  have last: "map_of (own ?d) (logicalPath (path f)) = Some v"
    if "files = before @ f # after" "parsed_contents parse f = Some v"
      "\<forall>g\<in>set after. parsed_contents parse g \<noteq> None
             \<longrightarrow> logicalPath (path g) \<noteq> logicalPath (path f)"
    for before f after v
  proof -
    from that(1,2) np have "logicalPath (path f) \<noteq> ''__proto__''" by auto
    from last_parsed_stored [OF that(2) this that(3), of before initial_state] that(1)
    show ?thesis by simp
  qed
  have "map_of (own ?d) ''hasOwnProperty'' = map_of (own (data initial_state)) ''hasOwnProperty''"
    using paths_ok by (intro treatFiles_untouched) blast
  then have no_own: "\<not> has_own ?d ''hasOwnProperty''"
    by (simp add: has_own_def init)
  have "proto ?d = proto (data initial_state)"
    using np by (rule treatFiles_proto_kept)
  then have pr: "proto ?d = ObjectPrototype"
    by (simp add: initial_state_def empty_object_def)
  have inh: "inherits_hasOwnProperty ?d"
    using no_own pr by (simp add: inherits_hasOwnProperty_def proto_defines_def)
  have entry: "\<exists>f\<in>set files. parsed_contents parse f = Some (get ?d p)"
    if "p \<in> fst ` set (own ?d)" for p
  proof -
    from that obtain v where v: "map_of (own ?d) p = Some v"
      by (metis domD dom_map_of_conv_image_fst)
    from stored [OF v] obtain before f after
      where "files = before @ f # after" "parsed_contents parse f = Some v" by blast
    moreover from v have "get ?d p = v" by (rule get_Some)
    ultimately show ?thesis by auto
  qed
  have vals: "\<forall>p\<in>fst ` set (own ?d). \<not> has_own (as_object (get ?d p)) ''hasOwnProperty''"
    using entry values_ok by blast
  have mg: "mergeable ?d" using inh vals by (simp add: mergeable_def)
  from treatMergedData_keys_sorted [OF mg, of "serialize num"] obtain ordered
    where o: "mergedOrdered ?d = Inr ordered"
      and t: "treatMergedData (serialize num) ?d = Inr (serialize num ordered)"
      and ks: "set (map fst ordered)
         = (\<Union>p\<in>fst ` set (own ?d). (\<lambda>k. getPrefix p @ k) ` fst ` set (enumerable (get ?d p)))"
      and so: "sorted_wrt (<) (map fst ordered)"
    by blast
  let ?R = "{getPrefix (logicalPath (path f)) @ k | before f after v k.
              files = before @ f # after \<and> parsed_contents parse f = Some v
              \<and> (\<forall>g\<in>set after. parsed_contents parse g \<noteq> None
                    \<longrightarrow> logicalPath (path g) \<noteq> logicalPath (path f))
              \<and> k \<in> fst ` set (enumerable v)}"
  have keyset: "set (map fst ordered) = ?R"
  proof (intro set_eqI iffI)
    fix key assume "key \<in> set (map fst ordered)"
    with ks obtain p k where p: "p \<in> fst ` set (own ?d)"
        and k: "k \<in> fst ` set (enumerable (get ?d p))" and key: "key = getPrefix p @ k"
      by auto
    from p obtain v where v: "map_of (own ?d) p = Some v"
      by (metis domD dom_map_of_conv_image_fst)
    then have g: "get ?d p = v" by (rule get_Some)
    from stored [OF v] obtain before f after
      where "files = before @ f # after" "parsed_contents parse f = Some v"
        "logicalPath (path f) = p"
        "\<forall>g\<in>set after. parsed_contents parse g \<noteq> None
             \<longrightarrow> logicalPath (path g) \<noteq> logicalPath (path f)"
      by blast
    with k g key show "key \<in> ?R" by blast
  next
    fix key assume "key \<in> ?R"
    then obtain before f after v k
      where f: "files = before @ f # after" "parsed_contents parse f = Some v"
        "\<forall>g\<in>set after. parsed_contents parse g \<noteq> None
             \<longrightarrow> logicalPath (path g) \<noteq> logicalPath (path f)"
        and k: "k \<in> fst ` set (enumerable v)"
        and key: "key = getPrefix (logicalPath (path f)) @ k"
      by blast
    from last [OF f] have m: "map_of (own ?d) (logicalPath (path f)) = Some v" .
    then have "logicalPath (path f) \<in> fst ` set (own ?d)"
      by (metis domI dom_map_of_conv_image_fst)
    moreover from m have "get ?d (logicalPath (path f)) = v" by (rule get_Some)
    ultimately show "key \<in> set (map fst ordered)"
      unfolding ks using k key by blast
  qed
  from map_of_mergedOrdered [OF o]
  have mo: "map_of ordered = merged_map ?d"
    and mk: "map fst ordered = sorted_list_of_set (dom (merged_map ?d))"
    and fin: "finite (dom (merged_map ?d))"
    by blast+
  have dist: "distinct (map fst ordered)" using mk by simp
  have dotted: "\<forall>k\<in>fst ` set ordered. CHR ''.'' \<in> set k"
  proof
    fix k assume "k \<in> fst ` set ordered"
    then have "k \<in> set (map fst ordered)" by simp
    then have "k \<in> dom (merged_map ?d)" using mk fin by simp
    then show "CHR ''.'' \<in> set k" by (rule merged_map_key_dotted)
  qed
  then have ni: "\<forall>k\<in>fst ` set ordered. \<not> isArrayIndex k"
    by (blast dest: dotted_not_index)
  have defined: "\<exists>strP. SerializeJSONProperty num gap (snd kv) = Some strP"
    if "kv \<in> set ordered" for kv
  proof -
    from that have "(fst kv, snd kv) \<in> set ordered" by simp
    with dist have "map_of ordered (fst kv) = Some (snd kv)" by (rule map_of_is_SomeI)
    then have "merged_map ?d (fst kv) = Some (snd kv)" by (simp add: mo)
    from merged_map_value [OF this] obtain p
      where p: "p \<in> fst ` set (own ?d)" "snd kv \<in> snd ` set (enumerable (get ?d p))" by blast
    from entry [OF p(1)] values_ok have "JUndefined \<notin> snd ` set (enumerable (get ?d p))"
      by blast
    with p(2) have "snd kv \<noteq> JUndefined" by metis
    then show ?thesis by (rule SerializeJSONProperty_defined)
  qed
  define texts where "texts = map (\<lambda>kv. the (SerializeJSONProperty num gap (snd kv))) ordered"
  have "(SerializeJSONProperty num gap \<circ> snd) kv
      = Some (the (SerializeJSONProperty num gap (snd kv)))" if "kv \<in> set ordered" for kv
    using defined [OF that] by auto
  then have tx: "map (SerializeJSONProperty num gap \<circ> snd) ordered = map Some texts"
    by (simp add: texts_def)
  from JSON_stringify_shape [OF dist ni tx]
  have "serialize num ordered
      = bufferFrom (wrap ''{'' ''}'' []
          (map2 (\<lambda>k strP. QuoteJSONString k @ '': '' @ strP) (map fst ordered) texts))"
    by (simp only: serialize_def)
  with t have out: "treatMergedData (serialize num) ?d
      = Inr (bufferFrom (wrap ''{'' ''}'' []
          (map2 (\<lambda>k strP. QuoteJSONString k @ '': '' @ strP) (map fst ordered) texts)))"
    by (simp only:)
  show ?thesis
  proof (intro exI conjI)
    show "mergedOrdered ?d = Inr ordered" by (rule o)
    show "set (map fst ordered) = ?R" by (rule keyset)
    show "sorted_wrt (<) (map fst ordered)" by (rule so)
    show "map (SerializeJSONProperty num gap \<circ> snd) ordered = map Some texts" by (rule tx)
    show "treatMergedData (serialize num) ?d
      = Inr (bufferFrom (wrap ''{'' ''}'' []
          (map2 (\<lambda>k strP. QuoteJSONString k @ '': '' @ strP) (map fst ordered) texts)))"
      by (rule out)
  qed
qed

text \<open>The theorem at three files: two with the logical path \<open>core/lang.json\<close> and an
  addon file. The output has the keys of the second and the third file.\<close>

theorem treatMergedData_keys_union_sorted_witness:
  \<open>mergedOrdered (data (treatFiles sample_parse
       [\<lparr>path = ''/one/src/app/core/lang.json'', contents = BufferContents ''{"x":"1"}''\<rparr>,
        \<lparr>path = ''/two/src/app/core/lang.json'', contents = BufferContents ''{"y":"2"}''\<rparr>,
        \<lparr>path = ''/one/src/app/addons/mod/forum/lang.json'',
          contents = BufferContents ''{"k":"A"}''\<rparr>]
       initial_state))
     = Inr [(''addon.mod_forum.k'', JString ''A''), (''core.y'', JString ''2'')] \<and>
   {getPrefix (logicalPath (path f)) @ k | before f after v k.
      [\<lparr>path = ''/one/src/app/core/lang.json'', contents = BufferContents ''{"x":"1"}''\<rparr>,
       \<lparr>path = ''/two/src/app/core/lang.json'', contents = BufferContents ''{"y":"2"}''\<rparr>,
       \<lparr>path = ''/one/src/app/addons/mod/forum/lang.json'',
         contents = BufferContents ''{"k":"A"}''\<rparr>] = before @ f # after
      \<and> parsed_contents sample_parse f = Some v
      \<and> (\<forall>g\<in>set after. parsed_contents sample_parse g \<noteq> None
            \<longrightarrow> logicalPath (path g) \<noteq> logicalPath (path f))
      \<and> k \<in> fst ` set (enumerable v)}
     = {''addon.mod_forum.k'', ''core.y''} \<and>
   sorted_wrt (<) [''addon.mod_forum.k'', ''core.y''] \<and>
   map (SerializeJSONProperty (decimal \<circ> nat \<circ> floor) gap \<circ> snd)
       [(''addon.mod_forum.k'', JString ''A''), (''core.y'', JString ''2'')]
     = map Some [''"A"'', ''"2"''] \<and>
   treatMergedData (serialize (decimal \<circ> nat \<circ> floor)) (data (treatFiles sample_parse
       [\<lparr>path = ''/one/src/app/core/lang.json'', contents = BufferContents ''{"x":"1"}''\<rparr>,
        \<lparr>path = ''/two/src/app/core/lang.json'', contents = BufferContents ''{"y":"2"}''\<rparr>,
        \<lparr>path = ''/one/src/app/addons/mod/forum/lang.json'',
          contents = BufferContents ''{"k":"A"}''\<rparr>]
       initial_state))
     = Inr (''{'' @ newline @ ''    "addon.mod_forum.k": "A",'' @ newline
            @ ''    "core.y": "2"'' @ newline @ ''}'')\<close>
proof -
  let ?f1 = \<open>\<lparr>path = ''/one/src/app/core/lang.json'', contents = BufferContents ''{"x":"1"}''\<rparr>\<close>
  let ?f2 = \<open>\<lparr>path = ''/two/src/app/core/lang.json'', contents = BufferContents ''{"y":"2"}''\<rparr>\<close>
  let ?f3 = \<open>\<lparr>path = ''/one/src/app/addons/mod/forum/lang.json'',
          contents = BufferContents ''{"k":"A"}''\<rparr>\<close>
  let ?files = "[?f1, ?f2, ?f3]"
  let ?d = "data (treatFiles sample_parse ?files initial_state)"
  let ?num = "decimal \<circ> nat \<circ> floor :: real \<Rightarrow> string"
  let ?O = "[(''addon.mod_forum.k'', JString ''A''), (''core.y'', JString ''2'')]"
  let ?T = \<open>[''"A"'', ''"2"'']\<close>
  have l1: "logicalPath ''/one/src/app/core/lang.json'' = ''core/lang.json''"
    by (simp add: path_eval)
  have l2: "logicalPath ''/two/src/app/core/lang.json'' = ''core/lang.json''"
    by (simp add: path_eval)
  have l3: "logicalPath ''/one/src/app/addons/mod/forum/lang.json''
      = ''addons/mod/forum/lang.json''"
    by (simp add: path_eval)
  have h1: "\<forall>f\<in>set ?files. parsed_contents sample_parse f \<noteq> None \<longrightarrow>
        logicalPath (path f) \<noteq> ''__proto__'' \<and> logicalPath (path f) \<noteq> ''hasOwnProperty''"
    by (simp add: l1 l2 l3)
  have h2: "\<forall>f\<in>set ?files. \<forall>v. parsed_contents sample_parse f = Some v \<longrightarrow>
        \<not> has_own (as_object v) ''hasOwnProperty'' \<and> JUndefined \<notin> snd ` set (enumerable v)"
    by (simp add: parsed_contents_def sample_parse_def has_own_def)
  have mo: "mergedOrdered ?d = Inr ?O"
    by (simp add: l1 l2 l3 file_eval) (simp add: object_eval)
  from treatMergedData_keys_union_sorted [OF h1 h2, of ?num] obtain ordered texts
    where o: "mergedOrdered ?d = Inr ordered"
      and ks: "set (map fst ordered)
         = {getPrefix (logicalPath (path f)) @ k | before f after v k.
              ?files = before @ f # after \<and> parsed_contents sample_parse f = Some v
              \<and> (\<forall>g\<in>set after. parsed_contents sample_parse g \<noteq> None
                    \<longrightarrow> logicalPath (path g) \<noteq> logicalPath (path f))
              \<and> k \<in> fst ` set (enumerable v)}"
      and so: "sorted_wrt (<) (map fst ordered)"
      and tx: "map (SerializeJSONProperty ?num gap \<circ> snd) ordered = map Some texts"
      and out: "treatMergedData (serialize ?num) ?d
         = Inr (bufferFrom (wrap ''{'' ''}'' []
             (map2 (\<lambda>k strP. QuoteJSONString k @ '': '' @ strP) (map fst ordered) texts)))"
    by blast
  from o mo have eq: "ordered = ?O" by simp
  from ks have w2: "{getPrefix (logicalPath (path f)) @ k | before f after v k.
              ?files = before @ f # after \<and> parsed_contents sample_parse f = Some v
              \<and> (\<forall>g\<in>set after. parsed_contents sample_parse g \<noteq> None
                    \<longrightarrow> logicalPath (path g) \<noteq> logicalPath (path f))
              \<and> k \<in> fst ` set (enumerable v)}
      = {''addon.mod_forum.k'', ''core.y''}"
    unfolding eq by simp
  from so have w3: "sorted_wrt (<) [''addon.mod_forum.k'', ''core.y'']"
    unfolding eq by simp
  have "map (SerializeJSONProperty ?num gap \<circ> snd) ?O = map Some ?T"
    by (simp add: QuoteJSONString_def quote_char_def)
  with tx have "map Some texts = map Some ?T" unfolding eq by simp
  from map_injective [OF this] have tq: "texts = ?T" by simp
  have w4: "map (SerializeJSONProperty ?num gap \<circ> snd) ?O = map Some ?T"
    using tx unfolding eq tq .
  have \<open>bufferFrom (wrap ''{'' ''}'' []
             (map2 (\<lambda>k strP. QuoteJSONString k @ '': '' @ strP) (map fst ?O) ?T))
      = ''{'' @ newline @ ''    "addon.mod_forum.k": "A",'' @ newline
            @ ''    "core.y": "2"'' @ newline @ ''}''\<close>
    by (simp add: bufferFrom_def utf8_def wrap_def gap_def newline_def QuoteJSONString_def
        quote_char_def)
  with out have w5: \<open>treatMergedData (serialize ?num) ?d
      = Inr (''{'' @ newline @ ''    "addon.mod_forum.k": "A",'' @ newline
            @ ''    "core.y": "2"'' @ newline @ ''}'')\<close>
    unfolding eq tq by simp
  show ?thesis
    by (intro conjI) (rule mo w2 w3 w4 w5)+
qed

text \<open>The hypotheses about the mappings are needed: a mapping with an own key named
  \<open>hasOwnProperty\<close> shadows the method, and the call in \<open>addProperties\<close> throws; a member
  whose value is \<open>undefined\<close> is left out of the text.\<close>

lemma shadowed_hasOwnProperty_throws:
  "treatMergedData stringify
     \<lparr>own = [(''core/lang.json'', JObject [(''hasOwnProperty'', JString ''x'')])],
      proto = ObjectPrototype\<rparr> = Inl TypeError"
  by (simp add: treatMergedData_def object_eval)

lemma undefined_member_not_serialized:
  "serialize num [(''core.k'', JUndefined)] = ''{}''"
  by (simp add: text_eval ownPropertyKeys_def isArrayIndex_def is_digit_def)

text \<open>
  The claim C1 as it is written, a union over every parsed file, fails for two files with
  the same logical path: the key \<open>core.x\<close> of the first file is not in the output. It
  also fails, with no output at all, for a file with a key named \<open>hasOwnProperty\<close> and for
  a file with the logical path \<open>hasOwnProperty\<close>; and a file with the logical path
  \<open>__proto__\<close> becomes the prototype of \<open>data\<close>, so that its keys are not in the output.
\<close>

theorem same_path_artifact_keys_lost_counterexample:
  \<open>logicalPath ''/one/src/app/core/lang.json'' = ''core/lang.json'' \<and>
   logicalPath ''/two/src/app/core/lang.json'' = ''core/lang.json'' \<and>
   sample_parse ''{"x":"1"}'' = Some (JObject [(''x'', JString ''1'')]) \<and>
   sample_parse ''{"y":"2"}'' = Some (JObject [(''y'', JString ''2'')]) \<and>
   getPrefix ''core/lang.json'' @ ''x'' = ''core.x'' \<and>
   mergedOrdered (data (treatFiles sample_parse
       [\<lparr>path = ''/one/src/app/core/lang.json'', contents = BufferContents ''{"x":"1"}''\<rparr>,
        \<lparr>path = ''/two/src/app/core/lang.json'', contents = BufferContents ''{"y":"2"}''\<rparr>]
       initial_state))
     = Inr [(''core.y'', JString ''2'')] \<and>
   treatMergedData (serialize (decimal \<circ> nat \<circ> floor)) (data (treatFiles sample_parse
       [\<lparr>path = ''/one/src/app/core/lang.json'', contents = BufferContents ''{"x":"1"}''\<rparr>,
        \<lparr>path = ''/two/src/app/core/lang.json'', contents = BufferContents ''{"y":"2"}''\<rparr>]
       initial_state))
     = Inr (''{'' @ newline @ ''    "core.y": "2"'' @ newline @ ''}'') \<and>
   shadow_parse ''{"hasOwnProperty":"x"}'' = Some (JObject [(''hasOwnProperty'', JString ''x'')]) \<and>
   treatMergedData (serialize (decimal \<circ> nat \<circ> floor)) (data (treatFiles shadow_parse
       [\<lparr>path = ''/one/src/app/core/lang.json'',
          contents = BufferContents ''{"hasOwnProperty":"x"}''\<rparr>]
       initial_state))
     = Inl TypeError \<and>
   logicalPath ''/one/src/app/hasOwnProperty'' = ''hasOwnProperty'' \<and>
   sample_parse ''{"k":"A"}'' = Some (JObject [(''k'', JString ''A'')]) \<and>
   treatMergedData (serialize (decimal \<circ> nat \<circ> floor)) (data (treatFiles sample_parse
       [\<lparr>path = ''/one/src/app/hasOwnProperty'', contents = BufferContents ''{"k":"A"}''\<rparr>]
       initial_state))
     = Inl TypeError \<and>
   logicalPath ''/one/src/app/__proto__'' = ''__proto__'' \<and>
   getPrefix ''__proto__'' @ ''k'' = ''undefined.undefined.k'' \<and>
   treatMergedData (serialize (decimal \<circ> nat \<circ> floor)) (data (treatFiles sample_parse
       [\<lparr>path = ''/one/src/app/__proto__'', contents = BufferContents ''{"k":"A"}''\<rparr>]
       initial_state))
     = Inr ''{}''\<close>
proof -
  have p1: "logicalPath ''/one/src/app/core/lang.json'' = ''core/lang.json''"
    by (simp add: path_eval)
  have p2: "logicalPath ''/two/src/app/core/lang.json'' = ''core/lang.json''"
    by (simp add: path_eval)
  have p3: "logicalPath ''/one/src/app/hasOwnProperty'' = ''hasOwnProperty''"
    by (simp add: path_eval)
  have p4: "logicalPath ''/one/src/app/__proto__'' = ''__proto__''"
    by (simp add: path_eval)
  have g1: "getPrefix ''core/lang.json'' @ ''x'' = ''core.x''"
    by (simp add: getPrefix_def is_separator_def at_index_def)
  have g2: "getPrefix ''__proto__'' @ ''k'' = ''undefined.undefined.k''"
    by (simp add: getPrefix_def is_separator_def at_index_def)
  have s1: \<open>sample_parse ''{"x":"1"}'' = Some (JObject [(''x'', JString ''1'')])\<close>
    by (simp add: sample_parse_def)
  have s2: \<open>sample_parse ''{"y":"2"}'' = Some (JObject [(''y'', JString ''2'')])\<close>
    by (simp add: sample_parse_def)
  have s3: \<open>shadow_parse ''{"hasOwnProperty":"x"}''
      = Some (JObject [(''hasOwnProperty'', JString ''x'')])\<close>
    by (simp add: shadow_parse_def)
  have s4: \<open>sample_parse ''{"k":"A"}'' = Some (JObject [(''k'', JString ''A'')])\<close>
    by (simp add: sample_parse_def)
  have m1: \<open>mergedOrdered (data (treatFiles sample_parse
       [\<lparr>path = ''/one/src/app/core/lang.json'', contents = BufferContents ''{"x":"1"}''\<rparr>,
        \<lparr>path = ''/two/src/app/core/lang.json'', contents = BufferContents ''{"y":"2"}''\<rparr>]
       initial_state))
     = Inr [(''core.y'', JString ''2'')]\<close>
    by (simp add: p1 p2 file_eval) (simp add: object_eval)
  have t1: \<open>treatMergedData (serialize (decimal \<circ> nat \<circ> floor)) (data (treatFiles sample_parse
       [\<lparr>path = ''/one/src/app/core/lang.json'', contents = BufferContents ''{"x":"1"}''\<rparr>,
        \<lparr>path = ''/two/src/app/core/lang.json'', contents = BufferContents ''{"y":"2"}''\<rparr>]
       initial_state))
     = Inr (''{'' @ newline @ ''    "core.y": "2"'' @ newline @ ''}'')\<close>
    by (simp add: treatMergedData_def m1)
      (simp add: text_eval ownPropertyKeys_def isArrayIndex_def is_digit_def)
  have m2: \<open>mergedOrdered (data (treatFiles shadow_parse
       [\<lparr>path = ''/one/src/app/core/lang.json'',
          contents = BufferContents ''{"hasOwnProperty":"x"}''\<rparr>]
       initial_state))
     = Inl TypeError\<close>
    by (simp add: p1 treatFiles_def treatFile_def initial_state_def shadow_parse_def)
      (simp add: object_eval)
  have m3: \<open>mergedOrdered (data (treatFiles sample_parse
       [\<lparr>path = ''/one/src/app/hasOwnProperty'', contents = BufferContents ''{"k":"A"}''\<rparr>]
       initial_state))
     = Inl TypeError\<close>
    by (simp add: p3 file_eval) (simp add: object_eval)
  have m4: \<open>mergedOrdered (data (treatFiles sample_parse
       [\<lparr>path = ''/one/src/app/__proto__'', contents = BufferContents ''{"k":"A"}''\<rparr>]
       initial_state))
     = Inr []\<close>
    by (simp add: p4 file_eval) (simp add: object_eval)
  have t2: \<open>treatMergedData (serialize (decimal \<circ> nat \<circ> floor)) (data (treatFiles shadow_parse
       [\<lparr>path = ''/one/src/app/core/lang.json'',
          contents = BufferContents ''{"hasOwnProperty":"x"}''\<rparr>]
       initial_state))
     = Inl TypeError\<close>
    by (simp add: treatMergedData_def m2)
  have t3: \<open>treatMergedData (serialize (decimal \<circ> nat \<circ> floor)) (data (treatFiles sample_parse
       [\<lparr>path = ''/one/src/app/hasOwnProperty'', contents = BufferContents ''{"k":"A"}''\<rparr>]
       initial_state))
     = Inl TypeError\<close>
    by (simp add: treatMergedData_def m3)
  have t4: \<open>treatMergedData (serialize (decimal \<circ> nat \<circ> floor)) (data (treatFiles sample_parse
       [\<lparr>path = ''/one/src/app/__proto__'', contents = BufferContents ''{"k":"A"}''\<rparr>]
       initial_state))
     = Inr ''{}''\<close>
    by (simp add: treatMergedData_def m4)
      (simp add: text_eval ownPropertyKeys_def)
  show ?thesis
    by (intro conjI) (rule p1 p2 p3 p4 g1 g2 s1 s2 s3 s4 m1 t1 t2 t3 t4)+
qed

text \<open>
  C4, as the code has it, in three parts. (1) For a source without an own key named
  \<open>hasOwnProperty\<close>, \<open>addProperties\<close> returns normally; every entry of the target whose
  key is the prefix followed by a key of the source then holds the value of the source,
  and every entry whose key is not of that form is unchanged. (2) When the merge of
  \<open>data\<close> returns, and an entry \<open>p\<close> of \<open>data\<close> has a key \<open>k\<close> such that no entry
  enumerated after \<open>p\<close> produces the prefixed key of \<open>k\<close>, the output holds the value of
  \<open>p\<close> under that key: among the entries that produce one prefixed key, the one that is
  enumerated last wins. (3) A file that is parsed and whose logical path is neither
  \<open>__proto__\<close> nor an array index leaves the enumeration order of \<open>data\<close> as it is when
  \<open>data\<close> already has an entry for the logical path, and is enumerated last otherwise.
  Part (3) says nothing about the other logical paths: array indices are enumerated
  first, in numeric order, and \<open>__proto__\<close> stores no entry.
\<close>

theorem addProperties_overwrites_enumeration_order:
  "(\<not> has_own (as_object source) ''hasOwnProperty'' \<longrightarrow>
      (\<exists>target'. addProperties target source pfx = Inr target' \<and>
         (\<forall>k\<in>fst ` set (enumerable source). has_own target (pfx @ k)
            \<longrightarrow> get target' (pfx @ k) = get (as_object source) k) \<and>
         (\<forall>key. key \<notin> (\<lambda>k. pfx @ k) ` fst ` set (enumerable source)
            \<longrightarrow> map_of (own target') key = map_of (own target) key))) \<and>
   (mergedOrdered d = Inr ordered \<and> ownPropertyKeys (own d) = before @ p # after
      \<and> k \<in> fst ` set (enumerable (get d p))
      \<and> (\<forall>q\<in>set after. getPrefix p @ k \<notin> fst ` set (contribution q (get d q)))
      \<longrightarrow> map_of ordered (getPrefix p @ k) = Some (get (as_object (get d p)) k)) \<and>
   (contents file = BufferContents text \<and> parse text = Some parsed
      \<and> logicalPath (path file) \<noteq> ''__proto__'' \<and> \<not> isArrayIndex (logicalPath (path file))
      \<longrightarrow> ownPropertyKeys (own (data (treatFile parse file st)))
          = (if has_own (data st) (logicalPath (path file)) then ownPropertyKeys (own (data st))
             else ownPropertyKeys (own (data st)) @ [logicalPath (path file)]))"
proof (intro conjI impI)
  assume "\<not> has_own (as_object source) ''hasOwnProperty''"
  then show "\<exists>target'. addProperties target source pfx = Inr target' \<and>
         (\<forall>k\<in>fst ` set (enumerable source). has_own target (pfx @ k)
            \<longrightarrow> get target' (pfx @ k) = get (as_object source) k) \<and>
         (\<forall>key. key \<notin> (\<lambda>k. pfx @ k) ` fst ` set (enumerable source)
            \<longrightarrow> map_of (own target') key = map_of (own target) key)"
    by (rule addProperties_overwrites)
next
  assume a: "mergedOrdered d = Inr ordered \<and> ownPropertyKeys (own d) = before @ p # after
      \<and> k \<in> fst ` set (enumerable (get d p))
      \<and> (\<forall>q\<in>set after. getPrefix p @ k \<notin> fst ` set (contribution q (get d q)))"
  then show "map_of ordered (getPrefix p @ k) = Some (get (as_object (get d p)) k)"
    by (intro last_enumerated_wins [of d ordered before p after k]) blast+
next
  assume a: "contents file = BufferContents text \<and> parse text = Some parsed
      \<and> logicalPath (path file) \<noteq> ''__proto__'' \<and> \<not> isArrayIndex (logicalPath (path file))"
  then show "ownPropertyKeys (own (data (treatFile parse file st)))
          = (if has_own (data st) (logicalPath (path file)) then ownPropertyKeys (own (data st))
             else ownPropertyKeys (own (data st)) @ [logicalPath (path file)])"
    by (intro treatFile_enumeration [of "file" "text" parse parsed st]) blast+
qed

text \<open>The three parts of the theorem at sample inputs.\<close>

theorem addProperties_overwrites_enumeration_order_witness:
  \<open>(\<exists>target'.
      addProperties
        \<lparr>own = [(''core.k'', JString ''A''), (''core.z'', JString ''Z'')], proto = ObjectPrototype\<rparr>
        (JObject [(''k'', JString ''B'')]) ''core.'' = Inr target' \<and>
      get target' ''core.k'' = JString ''B'' \<and>
      map_of (own target') ''core.z'' = Some (JString ''Z'')) \<and>
   map_of [(''core.k'', JString ''B'')] ''core.k'' = Some (JString ''B'') \<and>
   ownPropertyKeys (own (data (treatFile sample_parse
       \<lparr>path = ''/two/src/app/core/a.json'', contents = BufferContents ''{"k":"C"}''\<rparr>
       \<lparr>data = \<lparr>own = [(''core/a.json'', JObject [(''k'', JString ''A'')]),
                        (''core/b.json'', JObject [(''k'', JString ''B'')])],
                 proto = ObjectPrototype\<rparr>,
        console = []\<rparr>)))
     = [''core/a.json'', ''core/b.json'']\<close>
proof -
  let ?t = "\<lparr>own = [(''core.k'', JString ''A''), (''core.z'', JString ''Z'')],
            proto = ObjectPrototype\<rparr>"
  let ?s = "JObject [(''k'', JString ''B'')]"
  let ?d = "\<lparr>own = [(''core/a.json'', JObject [(''k'', JString ''A'')]),
                  (''core/b.json'', JObject [(''k'', JString ''B'')])],
            proto = ObjectPrototype\<rparr>"
  let ?f = \<open>\<lparr>path = ''/two/src/app/core/a.json'', contents = BufferContents ''{"k":"C"}''\<rparr>\<close>
  let ?st = "\<lparr>data = ?d, console = []\<rparr>"
  note main = addProperties_overwrites_enumeration_order
  have s: "\<not> has_own (as_object ?s) ''hasOwnProperty''"
    by (simp add: has_own_def)
  from main [of ?s ?t "''core.''"] s obtain t'
    where t': "addProperties ?t ?s ''core.'' = Inr t'"
      and ow: "\<forall>k\<in>fst ` set (enumerable ?s). has_own ?t (''core.'' @ k)
            \<longrightarrow> get t' (''core.'' @ k) = get (as_object ?s) k"
      and fr: "\<forall>key. key \<notin> (\<lambda>k. ''core.'' @ k) ` fst ` set (enumerable ?s)
            \<longrightarrow> map_of (own t') key = map_of (own ?t) key"
    by blast
  from ow have 1: "get t' ''core.k'' = JString ''B''"
    by (simp add: has_own_def get_def)
  from fr [rule_format, of "''core.z''"] have 2: "map_of (own t') ''core.z'' = Some (JString ''Z'')"
    by simp
  have mo: "mergedOrdered ?d = Inr [(''core.k'', JString ''B'')]"
    by (simp add: object_eval)
  have ks: "ownPropertyKeys (own ?d) = [''core/a.json''] @ ''core/b.json'' # []"
    by (simp add: ownPropertyKeys_def isArrayIndex_def is_digit_def)
  have kk: "''k'' \<in> fst ` set (enumerable (get ?d ''core/b.json''))"
    by (simp add: get_def)
  have af: "\<forall>q\<in>set []. getPrefix ''core/b.json'' @ ''k'' \<notin> fst ` set (contribution q (get ?d q))"
    by simp
  from main [of _ _ _ ?d "[(''core.k'', JString ''B'')]" "[''core/a.json'']" "''core/b.json''" "[]" "''k''"]
    mo ks kk af
  have "map_of [(''core.k'', JString ''B'')] (getPrefix ''core/b.json'' @ ''k'')
      = Some (get (as_object (get ?d ''core/b.json'')) ''k'')"
    by blast
  then have 3: "map_of [(''core.k'', JString ''B'')] ''core.k'' = Some (JString ''B'')"
    by simp
  have c: \<open>contents ?f = BufferContents ''{"k":"C"}''\<close> by simp
  have ps: \<open>sample_parse ''{"k":"C"}'' = Some (JObject [(''k'', JString ''C'')])\<close>
    by (simp add: sample_parse_def)
  have lp: "logicalPath ''/two/src/app/core/a.json'' = ''core/a.json''"
    by (simp add: path_eval)
  have np: "logicalPath (path ?f) \<noteq> ''__proto__''" by (simp add: lp)
  have ni: "\<not> isArrayIndex (logicalPath (path ?f))"
    by (simp add: lp isArrayIndex_def is_digit_def)
  from main [of _ _ _ _ _ _ _ _ _ ?f _ sample_parse _ ?st] c ps np ni
  have "ownPropertyKeys (own (data (treatFile sample_parse ?f ?st)))
          = (if has_own (data ?st) (logicalPath (path ?f)) then ownPropertyKeys (own (data ?st))
             else ownPropertyKeys (own (data ?st)) @ [logicalPath (path ?f)])"
    by blast
  then have 4: "ownPropertyKeys (own (data (treatFile sample_parse ?f ?st)))
      = [''core/a.json'', ''core/b.json'']"
    by (simp add: lp has_own_def ownPropertyKeys_def isArrayIndex_def is_digit_def)
  from t' 1 2 3 4 show ?thesis by blast
qed

text \<open>
  The claim C4 as it is written, the file processed later wins, fails when the later file
  re-uses a logical path: the third file below is processed last and its key collides
  with the second file's, but its entry keeps the position of the first file, so the
  second file's value \<open>B\<close> is the one in the output.
\<close>

theorem later_discovered_loses_counterexample:
  \<open>mergedOrdered (data (treatFiles sample_parse
       [\<lparr>path = ''/one/src/app/core/a.json'', contents = BufferContents ''{"k":"A"}''\<rparr>,
        \<lparr>path = ''/one/src/app/core/b.json'', contents = BufferContents ''{"k":"B"}''\<rparr>,
        \<lparr>path = ''/two/src/app/core/a.json'', contents = BufferContents ''{"k":"C"}''\<rparr>]
       initial_state))
     = Inr [(''core.k'', JString ''B'')] \<and>
   sample_parse ''{"k":"C"}'' = Some (JObject [(''k'', JString ''C'')]) \<and>
   logicalPath ''/two/src/app/core/a.json'' = ''core/a.json'' \<and>
   getPrefix ''core/a.json'' = ''core.''\<close>
proof -
  have p1: "logicalPath ''/one/src/app/core/a.json'' = ''core/a.json''"
    by (simp add: path_eval)
  have p2: "logicalPath ''/one/src/app/core/b.json'' = ''core/b.json''"
    by (simp add: path_eval)
  have p3: "logicalPath ''/two/src/app/core/a.json'' = ''core/a.json''"
    by (simp add: path_eval)
  have g: "getPrefix ''core/a.json'' = ''core.''"
    by (simp add: getPrefix_def is_separator_def at_index_def)
  show ?thesis
    by (simp add: p1 p2 p3 g file_eval) (simp add: object_eval)
qed

text \<open>
  C5 on the code. A path without any marker is not skipped: all four searches return
  \<open>-1\<close>, the cut position is \<open>-1 + 5 = 4\<close>, and the parsed contents are stored under
  the path without its first four characters and merged like any other entry.
\<close>

theorem treatFile_without_marker_keeps_file:
  \<open>lastIndexOf ''/tmp/core/lang.json'' ''/src/'' = - 1 \<and>
   logicalPath ''/tmp/core/lang.json'' = ''/core/lang.json'' \<and>
   data (treatFile sample_parse
       \<lparr>path = ''/tmp/core/lang.json'', contents = BufferContents ''{"k":"A"}''\<rparr>
       initial_state)
     = \<lparr>own = [(''/core/lang.json'', JObject [(''k'', JString ''A'')])],
        proto = ObjectPrototype\<rparr> \<and>
   mergedOrdered (data (treatFile sample_parse
       \<lparr>path = ''/tmp/core/lang.json'', contents = BufferContents ''{"k":"A"}''\<rparr>
       initial_state))
     = Inr [(''.core.k'', JString ''A'')]\<close>
proof -
  have l: "lastIndexOf ''/tmp/core/lang.json'' ''/src/'' = - 1"
    by (simp add: lastIndexOf_def occurs_at_def)
  have p: "logicalPath ''/tmp/core/lang.json'' = ''/core/lang.json''"
    by (simp add: path_eval)
  show ?thesis
    by (simp add: l p file_eval) (simp add: object_eval)
qed



text \<open>
  C7, as the code has it. Two \<open>data\<close> objects with the same prototype and the same
  entries, stored in any order, give the same result of \<open>treatMergedData\<close>, the same
  buffer or the same error, provided that no prefixed key is produced by two different
  entries.
\<close>

theorem treatMergedData_order_insensitive:
  assumes "distinct (map fst (own d1))" and "distinct (map fst (own d2))"
    and "set (own d1) = set (own d2)" and "proto d1 = proto d2"
    and "\<forall>p\<in>fst ` set (own d1). \<forall>q\<in>fst ` set (own d1). p \<noteq> q \<longrightarrow>
           fst ` set (contribution p (get d1 p)) \<inter> fst ` set (contribution q (get d1 q)) = {}"
  shows "treatMergedData stringify d1 = treatMergedData stringify d2"
  using assms by (rule order_insensitive)

text \<open>The theorem at two entries whose prefixed keys differ.\<close>

theorem treatMergedData_order_insensitive_witness:
  "treatMergedData (concat \<circ> map fst)
     \<lparr>own = [(''core/a.json'', JObject [(''k'', JString ''A'')]),
             (''addons/x/lang.json'', JObject [(''k'', JString ''B'')])],
      proto = ObjectPrototype\<rparr>
   = treatMergedData (concat \<circ> map fst)
     \<lparr>own = [(''addons/x/lang.json'', JObject [(''k'', JString ''B'')]),
             (''core/a.json'', JObject [(''k'', JString ''A'')])],
      proto = ObjectPrototype\<rparr>"
proof -
  let ?d1 = "\<lparr>own = [(''core/a.json'', JObject [(''k'', JString ''A'')]),
             (''addons/x/lang.json'', JObject [(''k'', JString ''B'')])],
      proto = ObjectPrototype\<rparr>"
  let ?d2 = "\<lparr>own = [(''addons/x/lang.json'', JObject [(''k'', JString ''B'')]),
             (''core/a.json'', JObject [(''k'', JString ''A'')])],
      proto = ObjectPrototype\<rparr>"
  have 1: "distinct (map fst (own ?d1))" by simp
  have 2: "distinct (map fst (own ?d2))" by simp
  have 3: "set (own ?d1) = set (own ?d2)" by (simp add: insert_commute)
  have 4: "proto ?d1 = proto ?d2" by simp
  have ca: "fst ` set (contribution ''core/a.json'' (JObject [(''k'', JString ''A'')]))
      = {''core.k''}"
    by (simp add: contribution_def for_in_def inherited_keys_def ownPropertyKeys_def
        isArrayIndex_def is_digit_def as_object_def getPrefix_def is_separator_def at_index_def)
  have cb: "fst ` set (contribution ''addons/x/lang.json'' (JObject [(''k'', JString ''B'')]))
      = {''addon.x.k''}"
    by (simp add: contribution_def for_in_def inherited_keys_def ownPropertyKeys_def
        isArrayIndex_def is_digit_def as_object_def getPrefix_def is_separator_def at_index_def)
  have 5: "\<forall>p\<in>fst ` set (own ?d1). \<forall>q\<in>fst ` set (own ?d1). p \<noteq> q \<longrightarrow>
      fst ` set (contribution p (get ?d1 p)) \<inter> fst ` set (contribution q (get ?d1 q)) = {}"
    by (simp add: get_def ca cb)
  from treatMergedData_order_insensitive [OF 1 2 3 4 5] show ?thesis .
qed

text \<open>
  The claim C7 as it is written fails when two entries produce the same prefixed key:
  the entry enumerated last wins, so the two orders hand different objects to the
  serialiser.
\<close>

theorem treatMergedData_order_sensitive_counterexample:
  "set (own \<lparr>own = [(''core/a.json'', JObject [(''k'', JString ''A'')]),
                    (''core/b.json'', JObject [(''k'', JString ''B'')])],
             proto = ObjectPrototype\<rparr>)
     = set (own \<lparr>own = [(''core/b.json'', JObject [(''k'', JString ''B'')]),
                      (''core/a.json'', JObject [(''k'', JString ''A'')])],
               proto = ObjectPrototype\<rparr>) \<and>
   mergedOrdered \<lparr>own = [(''core/a.json'', JObject [(''k'', JString ''A'')]),
                         (''core/b.json'', JObject [(''k'', JString ''B'')])],
                  proto = ObjectPrototype\<rparr>
     = Inr [(''core.k'', JString ''B'')] \<and>
   mergedOrdered \<lparr>own = [(''core/b.json'', JObject [(''k'', JString ''B'')]),
                         (''core/a.json'', JObject [(''k'', JString ''A'')])],
                  proto = ObjectPrototype\<rparr>
     = Inr [(''core.k'', JString ''A'')]"
  by (simp add: insert_commute) (simp add: object_eval)

text \<open>
  C10. Let two files have the same logical path, and let the later one parse. After both
  are processed, with any files between them, \<open>data\<close> holds the later file's value under
  that path, the entries of \<open>data\<close> are the ones it would have without the earlier file,
  and so are the keys of the output; when the two files follow each other, \<open>data\<close> is
  exactly what the later file alone gives. (The logical path \<open>__proto__\<close> is set apart:
  JavaScript does not store it as an entry.)
\<close>

theorem later_file_replaces_earlier:
  assumes "logicalPath (path f1) = logicalPath (path f2)"
    and "logicalPath (path f2) \<noteq> ''__proto__''"
    and "contents f2 = BufferContents text2" and "parse text2 = Some parsed2"
  shows "get (data (treatFiles parse (f1 # between @ [f2]) st)) (logicalPath (path f2)) = parsed2 \<and>
     map_of (own (data (treatFiles parse (f1 # between @ [f2]) st)))
       = map_of (own (data (treatFiles parse (between @ [f2]) st))) \<and>
     map_sum id (map fst) (mergedOrdered (data (treatFiles parse (f1 # between @ [f2]) st)))
       = map_sum id (map fst) (mergedOrdered (data (treatFiles parse (between @ [f2]) st))) \<and>
     data (treatFiles parse [f1, f2] st) = data (treatFiles parse [f2] st)"
  using assms
    later_replaces(1) [of f1 f2 text2 parse parsed2 between st]
    later_replaces(2) [of f1 f2 text2 parse parsed2 between st]
    later_replaces(3) [of f1 f2 text2 parse parsed2 between st]
    later_replaces(4) [of f1 f2 text2 parse parsed2 st]
  by blast

text \<open>The theorem at two files with the logical path \<open>core/lang.json\<close>.\<close>

theorem later_file_replaces_earlier_witness:
  \<open>get (data (treatFiles sample_parse
       (\<lparr>path = ''/one/src/app/core/lang.json'', contents = BufferContents ''{"x":"1"}''\<rparr>
        # [] @ [\<lparr>path = ''/two/src/app/core/lang.json'', contents = BufferContents ''{"y":"2"}''\<rparr>])
       initial_state)) ''core/lang.json''
     = JObject [(''y'', JString ''2'')] \<and>
   data (treatFiles sample_parse
       [\<lparr>path = ''/one/src/app/core/lang.json'', contents = BufferContents ''{"x":"1"}''\<rparr>,
        \<lparr>path = ''/two/src/app/core/lang.json'', contents = BufferContents ''{"y":"2"}''\<rparr>]
       initial_state)
     = data (treatFiles sample_parse
       [\<lparr>path = ''/two/src/app/core/lang.json'', contents = BufferContents ''{"y":"2"}''\<rparr>]
       initial_state)\<close>
proof -
  let ?f1 = \<open>\<lparr>path = ''/one/src/app/core/lang.json'', contents = BufferContents ''{"x":"1"}''\<rparr>\<close>
  let ?f2 = \<open>\<lparr>path = ''/two/src/app/core/lang.json'', contents = BufferContents ''{"y":"2"}''\<rparr>\<close>
  have p1: "logicalPath ''/one/src/app/core/lang.json'' = ''core/lang.json''"
    by (simp add: path_eval)
  have p2: "logicalPath ''/two/src/app/core/lang.json'' = ''core/lang.json''"
    by (simp add: path_eval)
  have a1: "logicalPath (path ?f1) = logicalPath (path ?f2)" by (simp add: p1 p2)
  have a2: "logicalPath (path ?f2) \<noteq> ''__proto__''" by (simp add: p2)
  have a3: \<open>contents ?f2 = BufferContents ''{"y":"2"}''\<close> by simp
  have a4: \<open>sample_parse ''{"y":"2"}'' = Some (JObject [(''y'', JString ''2'')])\<close>
    by (simp add: sample_parse_def)
  from later_file_replaces_earlier
    [of ?f1 ?f2 \<open>''{"y":"2"}''\<close> sample_parse "JObject [(''y'', JString ''2'')]" "[]"
       initial_state] a1 a2 a3 a4
  have r1: "get (data (treatFiles sample_parse (?f1 # [] @ [?f2]) initial_state))
        (logicalPath (path ?f2)) = JObject [(''y'', JString ''2'')]"
    and r4: "data (treatFiles sample_parse [?f1, ?f2] initial_state)
        = data (treatFiles sample_parse [?f2] initial_state)"
    by blast+
  from r1 have r1': "get (data (treatFiles sample_parse (?f1 # [] @ [?f2]) initial_state))
        ''core/lang.json'' = JObject [(''y'', JString ''2'')]"
    by (simp add: p2)
  from r1' r4 show ?thesis by (rule conjI)
qed

end
